theory Spec2Isabelle
  imports Main
begin

section \<open>Data model of the dependency parser\<close>

text \<open>
  The cursor of \<^verbatim>\<open>dependency/parser.go\<close>: the input string (a Go string is a sequence of
  bytes, here a \<open>char list\<close>) and the position of the next byte. \<open>Index\<close> is a Go \<open>int\<close> that
  starts at 0 and is only ever incremented, at most twice past the end of the data, so it is
  a natural number here.
\<close>

record Input =
  Data :: string
  Index :: nat

text \<open>
  The errors of the parser. The Go code builds them with \<open>errors.New\<close> and \<open>fmt.Errorf\<close>;
  each constructor stands for one message, its arguments for the formatted values:
  \<^item> \<open>NoPackageName\<close>: "No package name in Possibility"
  \<^item> \<open>DuplicateVersion\<close>: "Only one Version relation per Possibility, please!"
  \<^item> \<open>DuplicateArch\<close>: "Only one Arch relation per Possibility, please!"
  \<^item> \<open>TrailingGarbage c\<close>: "Trailing garbage in a Possibility: %c"
  \<^item> \<open>EOFInOperator\<close>: "Oh no. Reached EOF before Operator finished"
  \<^item> \<open>UnknownOperator s\<close>: "Unknown Operator in Possibility Version modifier: %s"
  \<^item> \<open>EOFInNumber\<close>: "Oh no. Reached EOF before Number finished"
  \<^item> \<open>EOFInArchList\<close>: "Oh no. Reached EOF before Arch list finished"
  \<^item> \<open>NegateWholeBlocks\<close>: "You can only negate whole blocks :("
  \<^item> \<open>ArchError e\<close>: the error \<open>e\<close> returned by \<open>ParseArch\<close>, handed on unchanged.
\<close>

datatype 'e error =
    NoPackageName
  | DuplicateVersion
  | DuplicateArch
  | TrailingGarbage char
  | EOFInOperator
  | UnknownOperator string
  | EOFInNumber
  | EOFInArchList
  | NegateWholeBlocks
  | ArchError 'e

text \<open>
  Modelled from the spec: the declarations of the result types \<open>Depedency\<close>, \<open>Relation\<close>,
  \<open>Possibility\<close>, \<open>VersionRelation\<close>, \<open>ArchSet\<close>, \<open>StageSet\<close>, \<open>Arch\<close> and \<open>Stage\<close>,
  which are not in \<^verbatim>\<open>parser.go\<close>. The records below have the fields that the parser reads and
  writes, under the names it uses, as the data model of the spec describes them. \<open>Arch\<close> and
  \<open>Stage\<close> are opaque to the parser and are type parameters. The fields of the two
  qualifier sets carry a prime, because \<open>Not\<close> is a constant of HOL and \<open>Arches\<close> and
  \<open>Stages\<close> are fields of \<open>Possibility\<close> as well.
\<close>

record VersionRelation =
  Number :: string
  Operator :: string

record 'a ArchSet =
  Not' :: bool
  Arches' :: "'a list"

record 's StageSet =
  Stages' :: "'s list"

record ('a, 's) Possibility =
  Name :: string
  Version :: "VersionRelation option"
  Arches :: "'a ArchSet"
  Stages :: "'s StageSet"

record ('a, 's) Relation =
  Possibilities :: "('a, 's) Possibility list"

record ('a, 's) Depedency =
  Relations :: "('a, 's) Relation list"

section \<open>The cursor\<close>

definition Peek :: "Input \<Rightarrow> char" where
  "Peek i = (if Index i \<ge> length (Data i) then CHR 0x00 else Data i ! Index i)"

text \<open>\<open>Next\<close> returns the byte under the cursor and the cursor moved one position on.\<close>

definition Next :: "Input \<Rightarrow> char \<times> Input" where
  "Next i = (let chr = Peek i in (chr, i\<lparr>Index := Index i + 1\<rparr>))"

text \<open>
  Go's conversion \<open>string(b)\<close> of a byte (and \<open>string([]rune{rune(b)})\<close>) is the UTF-8
  encoding of the code point \<open>b\<close>: one byte below 128, two bytes from 128 to 255.
\<close>

definition string_of_byte :: "char \<Rightarrow> string" where
  "string_of_byte c =
     (let n = (of_char c :: nat) in
      if n < 128 then [c] else [char_of (192 + n div 64), char_of (128 + n mod 64)])"

lemma Peek_in_bounds: "Peek i \<noteq> CHR 0x00 \<Longrightarrow> Index i < length (Data i)"
  by (simp add: Peek_def split: if_splits)

lemma Data_Next [simp]: "Data (snd (Next i)) = Data i"
  by (simp add: Next_def)

lemma Index_Next [simp]: "Index (snd (Next i)) = Suc (Index i)"
  by (simp add: Next_def)

lemma fst_Next [simp]: "fst (Next i) = Peek i"
  by (simp add: Next_def)

section \<open>Whitespace\<close>

function eatWhitespace :: "Input \<Rightarrow> Input" where
  "eatWhitespace input =
     (let peek = Peek input in
      if peek = CHR 0x0D \<or> peek = CHR 0x0A \<or> peek = CHR '' '' \<or> peek = CHR 0x09
      then eatWhitespace (snd (Next input))
      else input)"
  by pat_completeness auto

lemma eatWhitespace_terminates: "All eatWhitespace_dom"
  by (relation "measure (\<lambda>i. length (Data i) - Index i)")
     (auto dest!: Peek_in_bounds [OF ssubst [of _ _ "\<lambda>c. c \<noteq> CHR 0x00"]])

termination eatWhitespace
  by (rule eatWhitespace_terminates)

declare eatWhitespace.simps [simp del]

lemma eatWhitespace_Data [simp]: "Data (eatWhitespace i) = Data i"
  by (induction i rule: eatWhitespace.induct) (subst eatWhitespace.simps, simp add: Let_def)

lemma eatWhitespace_Index: "Index i \<le> Index (eatWhitespace i)"
  by (induction i rule: eatWhitespace.induct)
     (subst eatWhitespace.simps, auto simp: Let_def intro: Suc_leD)

section \<open>Architecture qualifiers\<close>

text \<open>
  \<open>ParseArch\<close>, the validator of one architecture token, is not part of \<^verbatim>\<open>parser.go\<close>; it
  is a parameter of the parsers that reach it. The parsers mutate the cursor and the value
  under construction through pointers and return an error or \<open>nil\<close>; here they return the
  error (\<open>Inl\<close>), or the cursor and the value as they are when the Go function returns \<open>nil\<close>.
  After an error every caller returns at once and \<open>Parse\<close> returns no value.
\<close>

function parsePossibilityArch_loop ::
  "(string \<Rightarrow> 'e + 'a) \<Rightarrow> Input \<Rightarrow> string \<Rightarrow> ('a, 's) Possibility
     \<Rightarrow> 'e error + (Input \<times> ('a, 's) Possibility)" where
  "parsePossibilityArch_loop ParseArch input arch possi =
     (let peek = Peek input in
      if peek = CHR 0x00 then Inl EOFInArchList
      else if peek = CHR ''!'' then Inl NegateWholeBlocks
      else if peek = CHR '']'' \<or> peek = CHR '' '' then
        (case ParseArch arch of
           Inl err \<Rightarrow> Inl (ArchError err)
         | Inr archObj \<Rightarrow>
             Inr (input, possi\<lparr>Arches := (Arches possi)\<lparr>Arches' := Arches' (Arches possi) @ [archObj]\<rparr>\<rparr>))
      else parsePossibilityArch_loop ParseArch (snd (Next input))
             (arch @ string_of_byte (fst (Next input))) possi)"
  by pat_completeness auto

lemma parsePossibilityArch_loop_terminates: "All parsePossibilityArch_loop_dom"
  by (relation "measure (\<lambda>(pa, i, a, p). length (Data i) - Index i)")
     (auto dest!: Peek_in_bounds)

termination parsePossibilityArch_loop
  by (rule parsePossibilityArch_loop_terminates)

declare parsePossibilityArch_loop.simps [simp del]

definition parsePossibilityArch ::
  "(string \<Rightarrow> 'e + 'a) \<Rightarrow> Input \<Rightarrow> ('a, 's) Possibility
     \<Rightarrow> 'e error + (Input \<times> ('a, 's) Possibility)" where
  "parsePossibilityArch ParseArch input possi =
     parsePossibilityArch_loop ParseArch (eatWhitespace input) [] possi"

lemma parsePossibilityArch_loop_mono:
  "parsePossibilityArch_loop pa i a p = Inr (i', p') \<Longrightarrow> Data i' = Data i \<and> Index i \<le> Index i'"
  by (induction pa i a p rule: parsePossibilityArch_loop.induct)
     (subst (asm) (2) parsePossibilityArch_loop.simps,
      auto simp: Let_def split: if_splits sum.splits intro: Suc_leD)

lemma parsePossibilityArch_loop_progress:
  "parsePossibilityArch_loop pa i a p = Inr (i', p') \<Longrightarrow>
   Peek i \<noteq> CHR '']'' \<Longrightarrow> Peek i \<noteq> CHR '' '' \<Longrightarrow> Index i < Index i'"
  by (subst (asm) parsePossibilityArch_loop.simps)
     (auto simp: Let_def split: if_splits dest!: parsePossibilityArch_loop_mono)

lemma parsePossibilityArch_mono:
  "parsePossibilityArch pa i p = Inr (i', p') \<Longrightarrow> Data i' = Data i \<and> Index i \<le> Index i'"
  using eatWhitespace_Index [of i]
  by (auto simp: parsePossibilityArch_def dest!: parsePossibilityArch_loop_mono)

lemma eatWhitespace_stops:
  "Peek (eatWhitespace i) \<noteq> CHR 0x0D \<and> Peek (eatWhitespace i) \<noteq> CHR 0x0A \<and>
   Peek (eatWhitespace i) \<noteq> CHR '' '' \<and> Peek (eatWhitespace i) \<noteq> CHR 0x09"
  by (induction i rule: eatWhitespace.induct) (subst (1 2 3 4) eatWhitespace.simps, simp add: Let_def)

lemma eatWhitespace_idle:
  "Peek i \<noteq> CHR 0x0D \<Longrightarrow> Peek i \<noteq> CHR 0x0A \<Longrightarrow> Peek i \<noteq> CHR '' '' \<Longrightarrow> Peek i \<noteq> CHR 0x09 \<Longrightarrow>
   eatWhitespace i = i"
  by (subst eatWhitespace.simps) (simp add: Let_def)

lemma eatWhitespace_eats:
  "Peek i = CHR 0x0D \<or> Peek i = CHR 0x0A \<or> Peek i = CHR '' '' \<or> Peek i = CHR 0x09 \<Longrightarrow>
   Index i < Index (eatWhitespace i)"
  using eatWhitespace_Index [of "snd (Next i)"]
  by (subst eatWhitespace.simps) (auto simp: Let_def)

lemma parsePossibilityArch_progress:
  assumes "parsePossibilityArch pa i p = Inr (i', p')" and "Peek i \<noteq> CHR '']''"
  shows "Index i < Index i'"
proof (cases "eatWhitespace i = i")
  case True
  with eatWhitespace_stops [of i] have "Peek i \<noteq> CHR '' ''" by simp
  with assms True show ?thesis
    by (auto simp: parsePossibilityArch_def dest: parsePossibilityArch_loop_progress)
next
  case False
  then have "Index i < Index (eatWhitespace i)"
    using eatWhitespace_idle [of i] eatWhitespace_eats [of i] by blast
  with assms show ?thesis
    by (auto simp: parsePossibilityArch_def dest!: parsePossibilityArch_loop_mono)
qed

function parsePossibilityArchs_loop ::
  "(string \<Rightarrow> 'e + 'a) \<Rightarrow> Input \<Rightarrow> ('a, 's) Possibility
     \<Rightarrow> 'e error + (Input \<times> ('a, 's) Possibility)" where
  "parsePossibilityArchs_loop ParseArch input possi =
     (let peek = Peek input in
      if peek = CHR 0x00 then Inl EOFInArchList
      else if peek = CHR '']'' then Inr (snd (Next input), possi)
      else (case parsePossibilityArch ParseArch input possi of
              Inl err \<Rightarrow> Inl err
            | Inr (input, possi) \<Rightarrow> parsePossibilityArchs_loop ParseArch input possi))"
  by pat_completeness auto

lemma parsePossibilityArchs_loop_terminates: "All parsePossibilityArchs_loop_dom"
proof (relation "measure (\<lambda>(pa, i, p). length (Data i) - Index i)", goal_cases)
  case 1
  show ?case by simp
next
  case (2 ParseArch input possi peek x2 x y)
  then have "Index input < length (Data input)"
    by (simp add: Peek_in_bounds)
  moreover have "Data x = Data input \<and> Index input < Index x"
    using 2 parsePossibilityArch_mono [of ParseArch input possi x y]
      parsePossibilityArch_progress [of ParseArch input possi x y] by simp
  ultimately show ?case by (auto intro: diff_less_mono2)
qed

termination parsePossibilityArchs_loop
  by (rule parsePossibilityArchs_loop_terminates)

declare parsePossibilityArchs_loop.simps [simp del]

definition parsePossibilityArchs ::
  "(string \<Rightarrow> 'e + 'a) \<Rightarrow> Input \<Rightarrow> ('a, 's) Possibility
     \<Rightarrow> 'e error + (Input \<times> ('a, 's) Possibility)" where
  "parsePossibilityArchs ParseArch input possi =
     (let input = eatWhitespace input;
          input = snd (Next input);
          peek = Peek input in
      if peek = CHR ''!''
      then parsePossibilityArchs_loop ParseArch (snd (Next input))
             (possi\<lparr>Arches := (Arches possi)\<lparr>Not' := True\<rparr>\<rparr>)
      else parsePossibilityArchs_loop ParseArch input possi)"

lemma parsePossibilityArchs_loop_mono:
  "parsePossibilityArchs_loop pa i p = Inr (i', p') \<Longrightarrow> Data i' = Data i \<and> Index i \<le> Index i'"
proof (induction pa i p rule: parsePossibilityArchs_loop.induct)
  case (1 pa i p)
  show ?case
  proof (cases "Peek i = CHR '']''")
    case True
    with "1.prems" show ?thesis
      by (subst (asm) parsePossibilityArchs_loop.simps) (auto simp: Let_def split: if_splits)
  next
    case False
    with "1.prems" obtain j q where
      step: "parsePossibilityArch pa i p = Inr (j, q)" and
      rest: "parsePossibilityArchs_loop pa j q = Inr (i', p')" and nz: "Peek i \<noteq> CHR 0x00"
      by (subst (asm) parsePossibilityArchs_loop.simps)
         (auto simp: Let_def split: if_splits sum.splits)
    from "1.IH" [OF refl nz False step refl rest] parsePossibilityArch_mono [OF step]
    show ?thesis by simp
  qed
qed

lemma parsePossibilityArchs_progress:
  assumes "parsePossibilityArchs pa i p = Inr (i', p')"
  shows "Data i' = Data i \<and> Index i < Index i'"
  using assms eatWhitespace_Index [of i]
  by (auto simp: parsePossibilityArchs_def Let_def split: if_splits
        dest!: parsePossibilityArchs_loop_mono)

section \<open>Version constraints\<close>

definition parsePossibilityOperator ::
  "Input \<Rightarrow> VersionRelation \<Rightarrow> 'e error + (Input \<times> VersionRelation)" where
  "parsePossibilityOperator input version =
     (let input = eatWhitespace input;
          leader = fst (Next input);
          input = snd (Next input) in
      if leader = CHR ''='' then Inr (input, version\<lparr>Operator := ''=''\<rparr>)
      else
        let secondary = fst (Next input);
            input = snd (Next input) in
        if leader = CHR 0x00 \<or> secondary = CHR 0x00 then Inl EOFInOperator
        else
          let operator = string_of_byte leader @ string_of_byte secondary in
          if operator = ''>='' \<or> operator = ''<='' \<or> operator = ''<<'' \<or> operator = ''>>''
          then Inr (input, version\<lparr>Operator := operator\<rparr>)
          else Inl (UnknownOperator operator))"

function parsePossibilityNumber_loop ::
  "Input \<Rightarrow> VersionRelation \<Rightarrow> 'e error + (Input \<times> VersionRelation)" where
  "parsePossibilityNumber_loop input version =
     (let peek = Peek input in
      if peek = CHR 0x00 then Inl EOFInNumber
      else if peek = CHR '')'' then Inr (input, version)
      else parsePossibilityNumber_loop (snd (Next input))
             (version\<lparr>Number := Number version @ string_of_byte (fst (Next input))\<rparr>))"
  by pat_completeness auto

lemma parsePossibilityNumber_loop_terminates: "All parsePossibilityNumber_loop_dom"
  by (relation "measure (\<lambda>(i, v). length (Data i) - Index i)")
     (auto dest!: Peek_in_bounds)

termination parsePossibilityNumber_loop
  by (rule parsePossibilityNumber_loop_terminates)

declare parsePossibilityNumber_loop.simps [simp del]

definition parsePossibilityNumber ::
  "Input \<Rightarrow> VersionRelation \<Rightarrow> 'e error + (Input \<times> VersionRelation)" where
  "parsePossibilityNumber input version = parsePossibilityNumber_loop (eatWhitespace input) version"

definition parsePossibilityVersion ::
  "Input \<Rightarrow> ('a, 's) Possibility \<Rightarrow> 'e error + (Input \<times> ('a, 's) Possibility)" where
  "parsePossibilityVersion input possi =
     (let input = eatWhitespace input;
          input = snd (Next input);
          version = \<lparr>Number = [], Operator = []\<rparr> in
      case parsePossibilityOperator input version of
        Inl err \<Rightarrow> Inl err
      | Inr (input, version) \<Rightarrow>
          (case parsePossibilityNumber input version of
             Inl err \<Rightarrow> Inl err
           | Inr (input, version) \<Rightarrow>
               (let input = snd (Next input) in
                Inr (input, possi\<lparr>Version := Some version\<rparr>))))"

lemma parsePossibilityOperator_mono:
  "parsePossibilityOperator i v = Inr (i', v') \<Longrightarrow> Data i' = Data i \<and> Index i \<le> Index i'"
  using eatWhitespace_Index [of i]
  by (auto simp: parsePossibilityOperator_def Let_def split: if_splits)

lemma parsePossibilityNumber_loop_mono:
  "parsePossibilityNumber_loop i v = Inr (i', v') \<Longrightarrow> Data i' = Data i \<and> Index i \<le> Index i'"
  by (induction i v rule: parsePossibilityNumber_loop.induct)
     (subst (asm) (2) parsePossibilityNumber_loop.simps,
      auto simp: Let_def split: if_splits intro: Suc_leD)

lemma parsePossibilityNumber_mono:
  "parsePossibilityNumber i v = Inr (i', v') \<Longrightarrow> Data i' = Data i \<and> Index i \<le> Index i'"
  using eatWhitespace_Index [of i]
  by (auto simp: parsePossibilityNumber_def dest!: parsePossibilityNumber_loop_mono)

lemma parsePossibilityVersion_progress:
  "parsePossibilityVersion i p = (Inr (i', p') :: 'e error + _) \<Longrightarrow>
   Data i' = Data i \<and> Index i < Index i'"
  using eatWhitespace_Index [of i]
  by (auto simp: parsePossibilityVersion_def Let_def split: sum.splits
        dest!: parsePossibilityOperator_mono parsePossibilityNumber_mono)

section \<open>Controllers of a possibility\<close>

function parsePossibilityControllers ::
  "(string \<Rightarrow> 'e + 'a) \<Rightarrow> Input \<Rightarrow> ('a, 's) Possibility
     \<Rightarrow> 'e error + (Input \<times> ('a, 's) Possibility)" where
  "parsePossibilityControllers ParseArch input possi =
     (let input = eatWhitespace input;
          peek = Peek input in
      if peek = CHR '','' \<or> peek = CHR ''|'' \<or> peek = CHR 0x00 then Inr (input, possi)
      else if peek = CHR ''('' then
        (if Version possi \<noteq> None then Inl DuplicateVersion
         else (case parsePossibilityVersion input possi of
                 Inl err \<Rightarrow> Inl err
               | Inr (input, possi) \<Rightarrow> parsePossibilityControllers ParseArch input possi))
      else if peek = CHR ''['' then
        (if length (Arches' (Arches possi)) \<noteq> 0 then Inl DuplicateArch
         else (case parsePossibilityArchs ParseArch input possi of
                 Inl err \<Rightarrow> Inl err
               | Inr (input, possi) \<Rightarrow> parsePossibilityControllers ParseArch input possi))
      else Inl (TrailingGarbage peek))"
  by pat_completeness auto

lemma parsePossibilityControllers_terminates: "All parsePossibilityControllers_dom"
proof (relation "measure (\<lambda>(pa, i, p). length (Data i) - Index i)", goal_cases)
  case 1
  show ?case by simp
next
  case (2 ParseArch input possi input' peek x2 x y)
  then have "Index input' < length (Data input')"
    using Peek_in_bounds [of input'] by auto
  moreover have "Data x = Data input' \<and> Index input' < Index x"
    using 2 parsePossibilityVersion_progress [of input' possi x y] by simp
  moreover have "Data input' = Data input \<and> Index input \<le> Index input'"
    using 2 eatWhitespace_Index [of input] by simp
  ultimately show ?case by (auto intro: diff_less_mono2)
next
  case (3 ParseArch input possi input' peek x2 x y)
  then have "Index input' < length (Data input')"
    using Peek_in_bounds [of input'] by auto
  moreover have "Data x = Data input' \<and> Index input' < Index x"
    using 3 parsePossibilityArchs_progress [of ParseArch input' possi x y] by simp
  moreover have "Data input' = Data input \<and> Index input \<le> Index input'"
    using 3 eatWhitespace_Index [of input] by simp
  ultimately show ?case by (auto intro: diff_less_mono2)
qed

termination parsePossibilityControllers
  by (rule parsePossibilityControllers_terminates)

declare parsePossibilityControllers.simps [simp del]

lemma parsePossibilityControllers_stop:
  "Peek (eatWhitespace i) = CHR '','' \<or> Peek (eatWhitespace i) = CHR ''|'' \<or>
   Peek (eatWhitespace i) = CHR 0x00 \<Longrightarrow>
   parsePossibilityControllers pa i p = Inr (eatWhitespace i, p)"
  by (subst parsePossibilityControllers.simps) (simp add: Let_def)

lemma parsePossibilityControllers_version:
  "Peek (eatWhitespace i) = CHR ''('' \<Longrightarrow>
   parsePossibilityControllers pa i p =
     (if Version p \<noteq> None then Inl DuplicateVersion
      else (case parsePossibilityVersion (eatWhitespace i) p of
              Inl err \<Rightarrow> Inl err
            | Inr (j, q) \<Rightarrow> parsePossibilityControllers pa j q))"
  by (subst parsePossibilityControllers.simps) (simp add: Let_def)

lemma parsePossibilityControllers_archs:
  "Peek (eatWhitespace i) = CHR ''['' \<Longrightarrow>
   parsePossibilityControllers pa i p =
     (if length (Arches' (Arches p)) \<noteq> 0 then Inl DuplicateArch
      else (case parsePossibilityArchs pa (eatWhitespace i) p of
              Inl err \<Rightarrow> Inl err
            | Inr (j, q) \<Rightarrow> parsePossibilityControllers pa j q))"
  by (subst parsePossibilityControllers.simps) (simp add: Let_def)

lemma parsePossibilityControllers_other:
  "Peek (eatWhitespace i) \<noteq> CHR '','' \<Longrightarrow> Peek (eatWhitespace i) \<noteq> CHR ''|'' \<Longrightarrow>
   Peek (eatWhitespace i) \<noteq> CHR 0x00 \<Longrightarrow> Peek (eatWhitespace i) \<noteq> CHR ''('' \<Longrightarrow>
   Peek (eatWhitespace i) \<noteq> CHR ''['' \<Longrightarrow>
   parsePossibilityControllers pa i p = Inl (TrailingGarbage (Peek (eatWhitespace i)))"
  by (subst parsePossibilityControllers.simps) (simp add: Let_def)

lemma parsePossibilityControllers_mono:
  fixes pa :: "string \<Rightarrow> 'e + 'a"
  shows "parsePossibilityControllers pa i p = Inr (i', p') \<Longrightarrow>
    Data i' = Data i \<and> Index (eatWhitespace i) \<le> Index i'"
proof (induction pa i p rule: parsePossibilityControllers.induct)
  case (1 pa i p)
  let ?j = "eatWhitespace i"
  consider (stop) "Peek ?j = CHR '','' \<or> Peek ?j = CHR ''|'' \<or> Peek ?j = CHR 0x00"
    | (version) "\<not> (Peek ?j = CHR '','' \<or> Peek ?j = CHR ''|'' \<or> Peek ?j = CHR 0x00)"
        "Peek ?j = CHR ''(''"
    | (archs) "\<not> (Peek ?j = CHR '','' \<or> Peek ?j = CHR ''|'' \<or> Peek ?j = CHR 0x00)"
        "Peek ?j \<noteq> CHR ''(''" "Peek ?j = CHR ''[''"
    | (other) "\<not> (Peek ?j = CHR '','' \<or> Peek ?j = CHR ''|'' \<or> Peek ?j = CHR 0x00)"
        "Peek ?j \<noteq> CHR ''(''" "Peek ?j \<noteq> CHR ''[''"
    by blast
  then show ?case
  proof cases
    case stop
    with "1.prems" show ?thesis
      by (auto simp: parsePossibilityControllers_stop)
  next
    case version
    from "1.prems" have none: "\<not> Version p \<noteq> None"
      by (auto simp: parsePossibilityControllers_version [OF version(2)] split: if_splits)
    with "1.prems" obtain k q where
      step: "parsePossibilityVersion ?j p = (Inr (k, q) :: 'e error + _)" and
      rest: "parsePossibilityControllers pa k q = Inr (i', p')"
      by (auto simp: parsePossibilityControllers_version [OF version(2)] split: sum.splits)
    from "1.IH" (1) [OF refl refl version none step refl rest]
      parsePossibilityVersion_progress [OF step] eatWhitespace_Index [of k]
    show ?thesis by simp
  next
    case archs
    from "1.prems" have none: "\<not> length (Arches' (Arches p)) \<noteq> 0"
      by (auto simp: parsePossibilityControllers_archs [OF archs(3)] split: if_splits)
    with "1.prems" obtain k q where
      step: "parsePossibilityArchs pa ?j p = Inr (k, q)" and
      rest: "parsePossibilityControllers pa k q = Inr (i', p')"
      by (auto simp: parsePossibilityControllers_archs [OF archs(3)] split: sum.splits)
    from "1.IH" (2) [OF refl refl archs none step refl rest]
      parsePossibilityArchs_progress [OF step] eatWhitespace_Index [of k]
    show ?thesis by simp
  next
    case other
    with "1.prems" show ?thesis
      by (simp add: parsePossibilityControllers_other)
  qed
qed

section \<open>Possibilities, relations, dependencies\<close>

function parsePossibility_loop ::
  "(string \<Rightarrow> 'e + 'a) \<Rightarrow> Input \<Rightarrow> ('a, 's) Possibility \<Rightarrow> ('a, 's) Relation
     \<Rightarrow> 'e error + (Input \<times> ('a, 's) Relation)" where
  "parsePossibility_loop ParseArch input ret relation =
     (let peek = Peek input in
      if peek = CHR '' '' then
        (case parsePossibilityControllers ParseArch input ret of
           Inl err \<Rightarrow> Inl err
         | Inr (input, ret) \<Rightarrow> parsePossibility_loop ParseArch input ret relation)
      else if peek = CHR '','' \<or> peek = CHR ''|'' \<or> peek = CHR 0x00 then
        (if Name ret = [] then Inl NoPackageName
         else Inr (input, relation\<lparr>Possibilities := Possibilities relation @ [ret]\<rparr>))
      else parsePossibility_loop ParseArch (snd (Next input))
             (ret\<lparr>Name := Name ret @ string_of_byte (fst (Next input))\<rparr>) relation)"
  by pat_completeness auto

lemma parsePossibility_loop_terminates: "All parsePossibility_loop_dom"
proof (relation "measure (\<lambda>(pa, i, p, r). length (Data i) - Index i)", goal_cases)
  case 1
  show ?case by simp
next
  case (2 ParseArch input ret relation peek x2 x y)
  then have space: "Peek input = CHR '' ''"
    by simp
  then have "Index input < length (Data input)"
    using Peek_in_bounds [of input] by simp
  moreover have "Data x = Data input \<and> Index (eatWhitespace input) \<le> Index x"
    using 2 parsePossibilityControllers_mono [of ParseArch input ret x y] by simp
  moreover have "Index input < Index (eatWhitespace input)"
    using space eatWhitespace_eats [of input] by simp
  ultimately show ?case by (auto intro: diff_less_mono2)
next
  case (3 ParseArch input ret relation peek)
  then show ?case
    using Peek_in_bounds [of input] by auto
qed

termination parsePossibility_loop
  by (rule parsePossibility_loop_terminates)

declare parsePossibility_loop.simps [simp del]

definition parsePossibility ::
  "(string \<Rightarrow> 'e + 'a) \<Rightarrow> Input \<Rightarrow> ('a, 's) Relation \<Rightarrow> 'e error + (Input \<times> ('a, 's) Relation)" where
  "parsePossibility ParseArch input relation =
     (let input = eatWhitespace input;
          ret = \<lparr>Name = [], Version = None,
                 Arches = \<lparr>Not' = False, Arches' = []\<rparr>,
                 Stages = \<lparr>Stages' = []\<rparr>\<rparr> in
      parsePossibility_loop ParseArch input ret relation)"

lemma parsePossibility_loop_space:
  "Peek i = CHR '' '' \<Longrightarrow>
   parsePossibility_loop pa i ret rel =
     (case parsePossibilityControllers pa i ret of
        Inl err \<Rightarrow> Inl err
      | Inr (j, q) \<Rightarrow> parsePossibility_loop pa j q rel)"
  by (subst parsePossibility_loop.simps) (simp add: Let_def)

lemma parsePossibility_loop_stop:
  "Peek i = CHR '','' \<or> Peek i = CHR ''|'' \<or> Peek i = CHR 0x00 \<Longrightarrow>
   parsePossibility_loop pa i ret rel =
     (if Name ret = [] then Inl NoPackageName
      else Inr (i, rel\<lparr>Possibilities := Possibilities rel @ [ret]\<rparr>))"
  by (subst parsePossibility_loop.simps) (auto simp: Let_def)

lemma parsePossibility_loop_char:
  "Peek i \<noteq> CHR '' '' \<Longrightarrow> Peek i \<noteq> CHR '','' \<Longrightarrow> Peek i \<noteq> CHR ''|'' \<Longrightarrow>
   Peek i \<noteq> CHR 0x00 \<Longrightarrow>
   parsePossibility_loop pa i ret rel =
     parsePossibility_loop pa (snd (Next i)) (ret\<lparr>Name := Name ret @ string_of_byte (Peek i)\<rparr>) rel"
  by (subst parsePossibility_loop.simps) (simp add: Let_def)

lemma parsePossibility_loop_mono:
  fixes pa :: "string \<Rightarrow> 'e + 'a"
  shows "parsePossibility_loop pa i ret rel = Inr (i', rel') \<Longrightarrow>
    Data i' = Data i \<and> Index i \<le> Index i'"
proof (induction pa i ret rel rule: parsePossibility_loop.induct)
  case (1 pa i ret rel)
  consider (space) "Peek i = CHR '' ''"
    | (stop) "Peek i \<noteq> CHR '' ''" "Peek i = CHR '','' \<or> Peek i = CHR ''|'' \<or> Peek i = CHR 0x00"
    | (char) "Peek i \<noteq> CHR '' ''" "\<not> (Peek i = CHR '','' \<or> Peek i = CHR ''|'' \<or> Peek i = CHR 0x00)"
    by blast
  then show ?case
  proof cases
    case space
    with "1.prems" obtain j q where
      step: "parsePossibilityControllers pa i ret = Inr (j, q)" and
      rest: "parsePossibility_loop pa j q rel = Inr (i', rel')"
      by (auto simp: parsePossibility_loop_space split: sum.splits)
    from "1.IH" (1) [OF refl space step refl rest] parsePossibilityControllers_mono [OF step]
      eatWhitespace_Index [of i]
    show ?thesis by simp
  next
    case stop
    with "1.prems" show ?thesis
      by (auto simp: parsePossibility_loop_stop split: if_splits)
  next
    case char
    with "1.prems" have
      "parsePossibility_loop pa (snd (Next i))
         (ret\<lparr>Name := Name ret @ string_of_byte (fst (Next i))\<rparr>) rel = Inr (i', rel')"
      by (simp add: parsePossibility_loop_char)
    from "1.IH" (2) [OF refl char this] show ?thesis by simp
  qed
qed

lemma parsePossibility_progress:
  fixes pa :: "string \<Rightarrow> 'e + 'a"
  assumes "parsePossibility pa i rel = Inr (i', rel')"
    and "Peek i \<noteq> CHR '',''" "Peek i \<noteq> CHR ''|''" "Peek i \<noteq> CHR 0x00"
  shows "Data i' = Data i \<and> Index i < Index i'"
proof (cases "eatWhitespace i = i")
  case True
  with eatWhitespace_stops [of i] have "Peek i \<noteq> CHR '' ''" by simp
  with assms True show ?thesis
    by (auto simp: parsePossibility_def parsePossibility_loop_char dest!: parsePossibility_loop_mono)
next
  case False
  then have "Index i < Index (eatWhitespace i)"
    using eatWhitespace_idle [of i] eatWhitespace_eats [of i] by blast
  with assms show ?thesis
    by (auto simp: parsePossibility_def dest!: parsePossibility_loop_mono)
qed

function parseRelation_loop ::
  "(string \<Rightarrow> 'e + 'a) \<Rightarrow> Input \<Rightarrow> ('a, 's) Relation \<Rightarrow> ('a, 's) Depedency
     \<Rightarrow> 'e error + (Input \<times> ('a, 's) Depedency)" where
  "parseRelation_loop ParseArch input ret dependency =
     (let peek = Peek input in
      if peek = CHR 0x00 \<or> peek = CHR '','' then
        Inr (input, dependency\<lparr>Relations := Relations dependency @ [ret]\<rparr>)
      else if peek = CHR ''|'' then
        parseRelation_loop ParseArch (eatWhitespace (snd (Next input))) ret dependency
      else (case parsePossibility ParseArch input ret of
              Inl err \<Rightarrow> Inl err
            | Inr (input, ret) \<Rightarrow> parseRelation_loop ParseArch input ret dependency))"
  by pat_completeness auto

lemma parseRelation_loop_terminates: "All parseRelation_loop_dom"
proof (relation "measure (\<lambda>(pa, i, r, d). length (Data i) - Index i)", goal_cases)
  case 1
  show ?case by simp
next
  case (2 ParseArch input ret dependency peek)
  then show ?case
    using Peek_in_bounds [of input] eatWhitespace_Index [of "snd (Next input)"] by auto
next
  case (3 ParseArch input ret dependency peek x2 x y)
  then have "Index input < length (Data input)"
    using Peek_in_bounds [of input] by auto
  moreover have "Data x = Data input \<and> Index input < Index x"
    using 3 parsePossibility_progress [of ParseArch input ret x y] by simp
  ultimately show ?case by (auto intro: diff_less_mono2)
qed

termination parseRelation_loop
  by (rule parseRelation_loop_terminates)

declare parseRelation_loop.simps [simp del]

definition parseRelation ::
  "(string \<Rightarrow> 'e + 'a) \<Rightarrow> Input \<Rightarrow> ('a, 's) Depedency
     \<Rightarrow> 'e error + (Input \<times> ('a, 's) Depedency)" where
  "parseRelation ParseArch input dependency =
     (let input = eatWhitespace input;
          ret = \<lparr>Possibilities = []\<rparr> in
      parseRelation_loop ParseArch input ret dependency)"

lemma parseRelation_loop_stop:
  "Peek i = CHR 0x00 \<or> Peek i = CHR '','' \<Longrightarrow>
   parseRelation_loop pa i ret dep = Inr (i, dep\<lparr>Relations := Relations dep @ [ret]\<rparr>)"
  by (subst parseRelation_loop.simps) (auto simp: Let_def)

lemma parseRelation_loop_pipe:
  "Peek i = CHR ''|'' \<Longrightarrow>
   parseRelation_loop pa i ret dep = parseRelation_loop pa (eatWhitespace (snd (Next i))) ret dep"
  by (subst parseRelation_loop.simps) (simp add: Let_def)

lemma parseRelation_loop_possi:
  "Peek i \<noteq> CHR 0x00 \<Longrightarrow> Peek i \<noteq> CHR '','' \<Longrightarrow> Peek i \<noteq> CHR ''|'' \<Longrightarrow>
   parseRelation_loop pa i ret dep =
     (case parsePossibility pa i ret of
        Inl err \<Rightarrow> Inl err
      | Inr (j, r) \<Rightarrow> parseRelation_loop pa j r dep)"
  by (subst parseRelation_loop.simps) (simp add: Let_def)

lemma parseRelation_loop_mono:
  fixes pa :: "string \<Rightarrow> 'e + 'a"
  shows "parseRelation_loop pa i ret dep = Inr (i', dep') \<Longrightarrow>
    Data i' = Data i \<and> Index i \<le> Index i'"
proof (induction pa i ret dep rule: parseRelation_loop.induct)
  case (1 pa i ret dep)
  consider (stop) "Peek i = CHR 0x00 \<or> Peek i = CHR '',''"
    | (pipe) "\<not> (Peek i = CHR 0x00 \<or> Peek i = CHR '','')" "Peek i = CHR ''|''"
    | (possi) "\<not> (Peek i = CHR 0x00 \<or> Peek i = CHR '','')" "Peek i \<noteq> CHR ''|''"
    by blast
  then show ?case
  proof cases
    case stop
    with "1.prems" show ?thesis
      by (auto simp: parseRelation_loop_stop)
  next
    case pipe
    with "1.prems" have
      "parseRelation_loop pa (eatWhitespace (snd (Next i))) ret dep = Inr (i', dep')"
      by (simp add: parseRelation_loop_pipe)
    from "1.IH" (1) [OF refl pipe this] eatWhitespace_Index [of "snd (Next i)"]
    show ?thesis by simp
  next
    case possi
    with "1.prems" obtain j r where
      step: "parsePossibility pa i ret = Inr (j, r)" and
      rest: "parseRelation_loop pa j r dep = Inr (i', dep')"
      by (auto simp: parseRelation_loop_possi split: sum.splits)
    from possi have "Peek i \<noteq> CHR '',''" "Peek i \<noteq> CHR ''|''" "Peek i \<noteq> CHR 0x00"
      by simp_all
    from "1.IH" (2) [OF refl possi step refl rest] parsePossibility_progress [OF step this]
    show ?thesis by simp
  qed
qed

lemma parseRelation_progress:
  fixes pa :: "string \<Rightarrow> 'e + 'a"
  assumes "parseRelation pa i dep = Inr (i', dep')"
    and "Peek i \<noteq> CHR 0x00" "Peek i \<noteq> CHR '',''"
  shows "Data i' = Data i \<and> Index i < Index i'"
proof (cases "eatWhitespace i = i")
  case True
  from assms True have run: "parseRelation_loop pa i \<lparr>Possibilities = []\<rparr> dep = Inr (i', dep')"
    by (simp add: parseRelation_def)
  show ?thesis
  proof (cases "Peek i = CHR ''|''")
    case True
    with run have "parseRelation_loop pa (eatWhitespace (snd (Next i))) \<lparr>Possibilities = []\<rparr> dep
      = Inr (i', dep')"
      by (simp add: parseRelation_loop_pipe)
    from parseRelation_loop_mono [OF this] eatWhitespace_Index [of "snd (Next i)"]
    show ?thesis by simp
  next
    case False
    with run assms obtain j r where
      step: "parsePossibility pa i \<lparr>Possibilities = []\<rparr> = Inr (j, r)" and
      rest: "parseRelation_loop pa j r dep = Inr (i', dep')"
      by (auto simp: parseRelation_loop_possi split: sum.splits)
    from parsePossibility_progress [OF step assms(3) False assms(2)]
      parseRelation_loop_mono [OF rest]
    show ?thesis by simp
  qed
next
  case False
  then have "Index i < Index (eatWhitespace i)"
    using eatWhitespace_idle [of i] eatWhitespace_eats [of i] by blast
  with assms show ?thesis
    by (auto simp: parseRelation_def dest!: parseRelation_loop_mono)
qed

function parseDependency_loop ::
  "(string \<Rightarrow> 'e + 'a) \<Rightarrow> Input \<Rightarrow> ('a, 's) Depedency
     \<Rightarrow> 'e error + (Input \<times> ('a, 's) Depedency)" where
  "parseDependency_loop ParseArch input ret =
     (let peek = Peek input in
      if peek = CHR 0x00 then Inr (input, ret)
      else if peek = CHR '','' then
        parseDependency_loop ParseArch (eatWhitespace (snd (Next input))) ret
      else (case parseRelation ParseArch input ret of
              Inl err \<Rightarrow> Inl err
            | Inr (input, ret) \<Rightarrow> parseDependency_loop ParseArch input ret))"
  by pat_completeness auto

lemma parseDependency_loop_terminates: "All parseDependency_loop_dom"
proof (relation "measure (\<lambda>(pa, i, d). length (Data i) - Index i)", goal_cases)
  case 1
  show ?case by simp
next
  case (2 ParseArch input ret peek)
  then show ?case
    using Peek_in_bounds [of input] eatWhitespace_Index [of "snd (Next input)"] by auto
next
  case (3 ParseArch input ret peek x2 x y)
  then have "Index input < length (Data input)"
    using Peek_in_bounds [of input] by auto
  moreover have "Data x = Data input \<and> Index input < Index x"
    using 3 parseRelation_progress [of ParseArch input ret x y] by simp
  ultimately show ?case by (auto intro: diff_less_mono2)
qed

termination parseDependency_loop
  by (rule parseDependency_loop_terminates)

declare parseDependency_loop.simps [simp del]

definition parseDependency ::
  "(string \<Rightarrow> 'e + 'a) \<Rightarrow> Input \<Rightarrow> ('a, 's) Depedency
     \<Rightarrow> 'e error + (Input \<times> ('a, 's) Depedency)" where
  "parseDependency ParseArch input ret = parseDependency_loop ParseArch (eatWhitespace input) ret"

text \<open>
  \<open>Parse\<close> returns the dependency, or the error and no dependency.
\<close>

definition Parse :: "(string \<Rightarrow> 'e + 'a) \<Rightarrow> string \<Rightarrow> 'e error + ('a, 's) Depedency" where
  "Parse ParseArch str =
     (let ibuf = \<lparr>Data = str, Index = 0\<rparr>;
          dep = \<lparr>Relations = []\<rparr> in
      case parseDependency ParseArch ibuf dep of
        Inl err \<Rightarrow> Inl err
      | Inr (ibuf, dep) \<Rightarrow> Inr dep)"

lemma parseDependency_loop_eof:
  "Peek i = CHR 0x00 \<Longrightarrow> parseDependency_loop pa i dep = Inr (i, dep)"
  by (subst parseDependency_loop.simps) (simp add: Let_def)

lemma parseDependency_loop_comma:
  "Peek i = CHR '','' \<Longrightarrow>
   parseDependency_loop pa i dep = parseDependency_loop pa (eatWhitespace (snd (Next i))) dep"
  by (subst parseDependency_loop.simps) (simp add: Let_def)

lemma parseDependency_loop_relation:
  "Peek i \<noteq> CHR 0x00 \<Longrightarrow> Peek i \<noteq> CHR '','' \<Longrightarrow>
   parseDependency_loop pa i dep =
     (case parseRelation pa i dep of
        Inl err \<Rightarrow> Inl err
      | Inr (j, d) \<Rightarrow> parseDependency_loop pa j d)"
  by (subst parseDependency_loop.simps) (simp add: Let_def)

section \<open>The cursor as a split of the input\<close>

text \<open>
  Two devices for the proofs. \<open>whitespace\<close> names the four bytes that \<open>eatWhitespace\<close>
  skips. \<open>cursor pre xs\<close> is the cursor over the input \<open>pre @ xs\<close> that has consumed \<open>pre\<close>:
  \<open>Peek\<close> reads the head of \<open>xs\<close>, \<open>Next\<close> moves it to the end of \<open>pre\<close>.
\<close>

definition whitespace :: "char \<Rightarrow> bool" where
  "whitespace c \<longleftrightarrow> c = CHR 0x0D \<or> c = CHR 0x0A \<or> c = CHR '' '' \<or> c = CHR 0x09"

definition cursor :: "string \<Rightarrow> string \<Rightarrow> Input" where
  "cursor pre xs = \<lparr>Data = pre @ xs, Index = length pre\<rparr>"

lemma cursor_start: "\<lparr>Data = str, Index = 0\<rparr> = cursor [] str"
  by (simp add: cursor_def)

lemma Peek_cursor_Cons [simp]: "Peek (cursor pre (c # xs)) = c"
  by (simp add: Peek_def cursor_def)

lemma Peek_cursor_Nil [simp]: "Peek (cursor pre []) = CHR 0x00"
  by (simp add: Peek_def cursor_def)

lemma Next_cursor [simp]: "snd (Next (cursor pre (c # xs))) = cursor (pre @ [c]) xs"
  by (simp add: Next_def cursor_def)

lemma eatWhitespace_cursor:
  "eatWhitespace (cursor pre xs) = cursor (pre @ takeWhile whitespace xs) (dropWhile whitespace xs)"
proof (induction xs arbitrary: pre)
  case Nil
  show ?case by (subst eatWhitespace.simps) simp
next
  case (Cons c xs)
  show ?case
    by (subst eatWhitespace.simps) (simp add: Cons.IH whitespace_def [symmetric] Let_def)
qed

lemma eatWhitespace_cursor_idle:
  "\<not> whitespace c \<Longrightarrow> eatWhitespace (cursor pre (c # xs)) = cursor pre (c # xs)"
  by (simp add: eatWhitespace_cursor)

lemma eatWhitespace_cursor_Nil [simp]: "eatWhitespace (cursor pre []) = cursor pre []"
  by (simp add: eatWhitespace_cursor)

lemma eatWhitespace_cursor_all:
  "\<forall>c\<in>set ws. whitespace c \<Longrightarrow> eatWhitespace (cursor pre ws) = cursor (pre @ ws) []"
  by (simp add: eatWhitespace_cursor takeWhile_eq_all_conv [THEN iffD2]
      dropWhile_eq_Nil_conv [THEN iffD2])

lemma string_of_byte_not_Nil [simp]: "string_of_byte c \<noteq> []"
  by (simp add: string_of_byte_def Let_def)

text \<open>The possibility loop appends a run of bytes that are neither a space nor a terminator.\<close>

lemma parsePossibility_loop_name:
  "\<forall>x\<in>set w. x \<noteq> CHR '' '' \<and> x \<noteq> CHR '','' \<and> x \<noteq> CHR ''|'' \<and> x \<noteq> CHR 0x00 \<Longrightarrow>
   parsePossibility_loop pa (cursor pre (w @ xs)) ret rel =
   parsePossibility_loop pa (cursor (pre @ w) xs)
     (ret\<lparr>Name := Name ret @ concat (map string_of_byte w)\<rparr>) rel"
proof (induction w arbitrary: pre ret)
  case Nil
  show ?case by simp
next
  case (Cons c w)
  then show ?case
    by (simp add: parsePossibility_loop_char)
qed

text \<open>An input that is one such run, not starting with whitespace, is one possibility.\<close>

lemma Parse_single_name:
  fixes pa :: "string \<Rightarrow> 'e + 'a"
  assumes chars: "\<forall>x\<in>set w. x \<noteq> CHR '' '' \<and> x \<noteq> CHR '','' \<and> x \<noteq> CHR ''|'' \<and> x \<noteq> CHR 0x00"
    and "w \<noteq> []" and "\<not> whitespace (hd w)"
  shows "Parse pa w = (Inr \<lparr>Relations = [\<lparr>Possibilities = [\<lparr>Name = concat (map string_of_byte w),
    Version = None, Arches = \<lparr>Not' = False, Arches' = []\<rparr>, Stages = \<lparr>Stages' = []\<rparr>\<rparr>]\<rparr>]\<rparr>
      :: 'e error + ('a, 's) Depedency)"
proof -
  from assms obtain c cs where w: "w = c # cs"
    by (cases w) auto
  with assms have c: "\<not> whitespace c" "c \<noteq> CHR '',''" "c \<noteq> CHR ''|''" "c \<noteq> CHR 0x00"
    by auto
  have enc: "concat (map string_of_byte w) \<noteq> []"
    using w by simp
  have peek: "Peek (cursor [] w) = c"
    using w by simp
  have idle: "eatWhitespace (cursor [] w) = cursor [] w"
    using c w by (simp add: eatWhitespace_cursor_idle)
  have name: "parsePossibility_loop pa (cursor [] (w @ [])) ret rel =
      parsePossibility_loop pa (cursor ([] @ w) [])
        (ret\<lparr>Name := Name ret @ concat (map string_of_byte w)\<rparr>) rel" for ret rel
    using chars by (rule parsePossibility_loop_name)
  have possi: "parsePossibility pa (cursor [] w) rel =
      Inr (cursor w [], rel\<lparr>Possibilities := Possibilities rel @ [\<lparr>Name = concat (map string_of_byte w),
        Version = None, Arches = \<lparr>Not' = False, Arches' = []\<rparr>, Stages = \<lparr>Stages' = []\<rparr>\<rparr>]\<rparr>)"
    for rel :: "('a, 's) Relation"
    using name [of _ rel] enc
    by (simp add: parsePossibility_def idle parsePossibility_loop_stop)
  have rel: "parseRelation pa (cursor [] w) dep =
      Inr (cursor w [], dep\<lparr>Relations := Relations dep @ [\<lparr>Possibilities = [\<lparr>Name = concat (map string_of_byte w),
        Version = None, Arches = \<lparr>Not' = False, Arches' = []\<rparr>, Stages = \<lparr>Stages' = []\<rparr>\<rparr>]\<rparr>]\<rparr>)"
    for dep :: "('a, 's) Depedency"
    using c possi
    by (simp add: parseRelation_def idle peek parseRelation_loop_possi parseRelation_loop_stop)
  show ?thesis
    using c rel
    by (simp add: Parse_def parseDependency_def cursor_start idle peek
        parseDependency_loop_relation parseDependency_loop_eof)
qed

text \<open>The dependency loop skips a run of commas and whitespace and keeps its dependency.\<close>

lemma parseDependency_loop_separators:
  "\<forall>c\<in>set sep. c = CHR '','' \<or> whitespace c \<Longrightarrow>
   parseDependency_loop pa (eatWhitespace (cursor pre (sep @ rest))) dep =
   parseDependency_loop pa (eatWhitespace (cursor (pre @ sep) rest)) dep"
proof (induction sep arbitrary: pre)
  case Nil
  show ?case by simp
next
  case (Cons c sep)
  show ?case
  proof (cases "whitespace c")
    case True
    then have "eatWhitespace (cursor pre ((c # sep) @ rest)) =
        eatWhitespace (cursor (pre @ [c]) (sep @ rest))"
      by (simp add: eatWhitespace_cursor)
    with Cons.IH [of "pre @ [c]"] Cons.prems show ?thesis by simp
  next
    case False
    with Cons.prems have comma: "c = CHR '',''" by simp
    from False have "eatWhitespace (cursor pre ((c # sep) @ rest)) = cursor pre (c # sep @ rest)"
      by (simp add: eatWhitespace_cursor_idle)
    with Cons.IH [of "pre @ [c]"] Cons.prems comma show ?thesis
      by (simp add: parseDependency_loop_comma)
  qed
qed

text \<open>\<open>bare nm\<close> is the possibility that the parser builds for a name without controllers.\<close>

definition bare :: "string \<Rightarrow> ('a, 's) Possibility" where
  "bare nm = \<lparr>Name = concat (map string_of_byte nm), Version = None,
     Arches = \<lparr>Not' = False, Arches' = []\<rparr>, Stages = \<lparr>Stages' = []\<rparr>\<rparr>"

lemma eatWhitespace_cursor_run:
  assumes "\<forall>c\<in>set ws. whitespace c" and "t = [] \<or> \<not> whitespace (hd t)"
  shows "eatWhitespace (cursor pre (ws @ t)) = cursor (pre @ ws) t"
proof -
  from assms(2) have "takeWhile whitespace t = []" "dropWhile whitespace t = t"
    by (cases t; simp)+
  with assms(1) show ?thesis
    by (simp add: eatWhitespace_cursor takeWhile_append2 dropWhile_append2)
qed

lemma Peek_cursor_hd: "t \<noteq> [] \<Longrightarrow> Peek (cursor pre t) = hd t"
  by (cases t) simp_all

lemma parsePossibility_bare:
  fixes pa :: "string \<Rightarrow> 'e + 'a" and rel :: "('a, 's) Relation"
  assumes chars: "\<forall>x\<in>set a. x \<noteq> CHR '' '' \<and> x \<noteq> CHR '','' \<and> x \<noteq> CHR ''|'' \<and> x \<noteq> CHR 0x00"
    and a: "a \<noteq> []" "\<not> whitespace (hd a)"
    and ws: "\<forall>c\<in>set ws. whitespace c" "ws = [] \<or> hd ws = CHR '' ''"
    and t: "t = [] \<or> hd t = CHR '','' \<or> hd t = CHR ''|''"
  shows "parsePossibility pa (cursor pre (a @ ws @ t)) rel =
    Inr (cursor (pre @ a @ ws) t, rel\<lparr>Possibilities := Possibilities rel @ [bare a]\<rparr>)"
proof -
  have enc: "concat (map string_of_byte a) \<noteq> []"
    using a by (cases a) simp_all
  have idle: "eatWhitespace (cursor pre (a @ ws @ t)) = cursor pre (a @ ws @ t)"
    using a eatWhitespace_cursor_run [of "[]" "a @ ws @ t" pre] by simp
  have stop: "Peek (cursor (pre @ a @ ws) t) = CHR '','' \<or> Peek (cursor (pre @ a @ ws) t) = CHR ''|''
      \<or> Peek (cursor (pre @ a @ ws) t) = CHR 0x00"
    using t by (cases t) auto
  have t': "t = [] \<or> \<not> whitespace (hd t)"
    using t by (auto simp: whitespace_def)
  have final: "parsePossibility_loop pa (cursor (pre @ a @ ws) t) (bare a) rel =
      Inr (cursor (pre @ a @ ws) t, rel\<lparr>Possibilities := Possibilities rel @ [bare a]\<rparr>)"
    using stop enc by (simp add: parsePossibility_loop_stop bare_def)
  have "parsePossibility_loop pa (cursor (pre @ a) (ws @ t)) (bare a) rel =
      Inr (cursor (pre @ a @ ws) t, rel\<lparr>Possibilities := Possibilities rel @ [bare a]\<rparr>)"
  proof (cases ws)
    case Nil
    with final show ?thesis by simp
  next
    case (Cons c cs)
    with ws have space: "Peek (cursor (pre @ a) (ws @ t)) = CHR '' ''"
      by simp
    have "eatWhitespace (cursor (pre @ a) (ws @ t)) = cursor (pre @ a @ ws) t"
      using eatWhitespace_cursor_run [OF ws(1) t', of "pre @ a"] by simp
    with stop have "parsePossibilityControllers pa (cursor (pre @ a) (ws @ t)) (bare a) =
        Inr (cursor (pre @ a @ ws) t, bare a :: ('a, 's) Possibility)"
      by (simp add: parsePossibilityControllers_stop)
    with space final show ?thesis
      by (simp add: parsePossibility_loop_space)
  qed
  with parsePossibility_loop_name [OF chars, of pa pre "ws @ t" _ rel] show ?thesis
    by (simp add: parsePossibility_def idle bare_def)
qed

lemma parseRelation_bare:
  fixes pa :: "string \<Rightarrow> 'e + 'a" and dep :: "('a, 's) Depedency"
  assumes chars: "\<forall>x\<in>set a. x \<noteq> CHR '' '' \<and> x \<noteq> CHR '','' \<and> x \<noteq> CHR ''|'' \<and> x \<noteq> CHR 0x00"
    and a: "a \<noteq> []" "\<not> whitespace (hd a)"
    and ws: "\<forall>c\<in>set ws. whitespace c" "ws = [] \<or> hd ws = CHR '' ''"
    and t: "t = [] \<or> hd t = CHR '',''"
  shows "parseRelation pa (cursor pre (a @ ws @ t)) dep =
    Inr (cursor (pre @ a @ ws) t, dep\<lparr>Relations := Relations dep @ [\<lparr>Possibilities = [bare a]\<rparr>]\<rparr>)"
proof -
  have idle: "eatWhitespace (cursor pre (a @ ws @ t)) = cursor pre (a @ ws @ t)"
    using a eatWhitespace_cursor_run [of "[]" "a @ ws @ t" pre] by simp
  have peek: "Peek (cursor pre (a @ ws @ t)) = hd a"
    using a by (cases a) simp_all
  have hd: "hd a \<noteq> CHR 0x00" "hd a \<noteq> CHR '',''" "hd a \<noteq> CHR ''|''"
    using chars a by (cases a; simp)+
  have stop: "Peek (cursor (pre @ a @ ws) t) = CHR 0x00 \<or> Peek (cursor (pre @ a @ ws) t) = CHR '',''"
    using t by (cases t) auto
  have "parsePossibility pa (cursor pre (a @ ws @ t)) \<lparr>Possibilities = []\<rparr> =
      Inr (cursor (pre @ a @ ws) t, \<lparr>Possibilities = [bare a] :: ('a, 's) Possibility list\<rparr>)"
    using parsePossibility_bare [OF chars a ws, of t pa pre "\<lparr>Possibilities = []\<rparr>"] t by auto
  with stop hd show ?thesis
    by (simp add: parseRelation_def idle peek parseRelation_loop_possi parseRelation_loop_stop)
qed

text \<open>Two names around a run of separators are two relations of one possibility each.\<close>

lemma Parse_two_names:
  fixes pa :: "string \<Rightarrow> 'e + 'a"
  assumes a: "\<forall>x\<in>set a. x \<noteq> CHR '','' \<and> x \<noteq> CHR ''|'' \<and> x \<noteq> CHR 0x00 \<and> \<not> whitespace x" "a \<noteq> []"
    and b: "\<forall>x\<in>set b. x \<noteq> CHR '','' \<and> x \<noteq> CHR ''|'' \<and> x \<noteq> CHR 0x00 \<and> \<not> whitespace x" "b \<noteq> []"
    and ws: "\<forall>c\<in>set ws. whitespace c" "ws = [] \<or> hd ws = CHR '' ''"
    and sep: "\<forall>c\<in>set sep. c = CHR '','' \<or> whitespace c"
  shows "Parse pa (a @ ws @ CHR '','' # sep @ b) =
    (Inr \<lparr>Relations = [\<lparr>Possibilities = [bare a]\<rparr>, \<lparr>Possibilities = [bare b]\<rparr>]\<rparr>
       :: 'e error + ('a, 's) Depedency)"
proof -
  let ?t = "CHR '','' # sep @ b"
  let ?d1 = "\<lparr>Relations = [\<lparr>Possibilities = [bare a]\<rparr>]\<rparr> :: ('a, 's) Depedency"
  have chars_a: "\<forall>x\<in>set a. x \<noteq> CHR '' '' \<and> x \<noteq> CHR '','' \<and> x \<noteq> CHR ''|'' \<and> x \<noteq> CHR 0x00"
    and hd_a: "\<not> whitespace (hd a)"
    using a by (auto simp: whitespace_def)
  have chars_b: "\<forall>x\<in>set b. x \<noteq> CHR '' '' \<and> x \<noteq> CHR '','' \<and> x \<noteq> CHR ''|'' \<and> x \<noteq> CHR 0x00"
    and hd_b: "\<not> whitespace (hd b)"
    using b by (auto simp: whitespace_def)
  have idle_a: "eatWhitespace (cursor [] (a @ ws @ ?t)) = cursor [] (a @ ws @ ?t)"
    using a(2) hd_a eatWhitespace_cursor_run [of "[]" "a @ ws @ ?t" "[]"] by simp
  have peek_a: "Peek (cursor [] (a @ ws @ ?t)) \<noteq> CHR 0x00" "Peek (cursor [] (a @ ws @ ?t)) \<noteq> CHR '',''"
    using a by (cases a; simp)+
  have first: "parseRelation pa (cursor [] (a @ ws @ ?t)) \<lparr>Relations = []\<rparr> =
      Inr (cursor (a @ ws) ?t, ?d1)"
    using parseRelation_bare [OF chars_a a(2) hd_a ws, of ?t pa "[]" "\<lparr>Relations = []\<rparr>"] by simp
  have skip: "parseDependency_loop pa (cursor (a @ ws) ?t) ?d1 =
      parseDependency_loop pa (cursor (a @ ws @ CHR '','' # sep) b) ?d1"
  proof -
    have "eatWhitespace (cursor (a @ ws) (?t @ [])) = cursor (a @ ws) ?t"
      by (simp add: eatWhitespace_cursor_idle whitespace_def)
    moreover have "eatWhitespace (cursor ((a @ ws) @ CHR '','' # sep) b) =
        cursor (a @ ws @ CHR '','' # sep) b"
      using b(2) hd_b eatWhitespace_cursor_run [of "[]" b "a @ ws @ CHR '','' # sep"] by simp
    ultimately show ?thesis
      using parseDependency_loop_separators [of "CHR '','' # sep" pa "a @ ws" b ?d1] sep
      by simp
  qed
  have peek_b: "Peek (cursor (a @ ws @ CHR '','' # sep) b) \<noteq> CHR 0x00"
    "Peek (cursor (a @ ws @ CHR '','' # sep) b) \<noteq> CHR '',''"
    using b by (cases b; simp)+
  have second: "parseRelation pa (cursor (a @ ws @ CHR '','' # sep) b) ?d1 =
      Inr (cursor (a @ ws @ CHR '','' # sep @ b) [],
           \<lparr>Relations = [\<lparr>Possibilities = [bare a]\<rparr>, \<lparr>Possibilities = [bare b]\<rparr>]\<rparr>)"
    using parseRelation_bare [OF chars_b b(2) hd_b, of "[]" "[]" pa "a @ ws @ CHR '','' # sep" ?d1]
    by simp
  show ?thesis
    using first skip second peek_a peek_b
    by (simp add: Parse_def parseDependency_def cursor_start idle_a
        parseDependency_loop_relation parseDependency_loop_eof)
qed

text \<open>The architecture parsers: the negation flag and a \<open>!\<close> inside a token.\<close>

lemma parsePossibilityArch_loop_Not:
  "parsePossibilityArch_loop pa i a p = Inr (i', p') \<Longrightarrow> Not' (Arches p') = Not' (Arches p)"
  by (induction pa i a p rule: parsePossibilityArch_loop.induct)
     (subst (asm) (2) parsePossibilityArch_loop.simps,
      auto simp: Let_def split: if_splits sum.splits)

lemma parsePossibilityArchs_loop_eof:
  "Peek i = CHR 0x00 \<Longrightarrow> parsePossibilityArchs_loop pa i p = Inl EOFInArchList"
  by (subst parsePossibilityArchs_loop.simps) (simp add: Let_def)

lemma parsePossibilityArchs_loop_close:
  "Peek i = CHR '']'' \<Longrightarrow> parsePossibilityArchs_loop pa i p = Inr (snd (Next i), p)"
  by (subst parsePossibilityArchs_loop.simps) (simp add: Let_def)

lemma parsePossibilityArchs_loop_arch:
  "Peek i \<noteq> CHR 0x00 \<Longrightarrow> Peek i \<noteq> CHR '']'' \<Longrightarrow>
   parsePossibilityArchs_loop pa i p =
     (case parsePossibilityArch pa i p of
        Inl err \<Rightarrow> Inl err
      | Inr (j, q) \<Rightarrow> parsePossibilityArchs_loop pa j q)"
  by (subst parsePossibilityArchs_loop.simps) (simp add: Let_def)

lemma parsePossibilityArchs_loop_Not:
  "parsePossibilityArchs_loop pa i p = Inr (i', p') \<Longrightarrow> Not' (Arches p') = Not' (Arches p)"
proof (induction pa i p rule: parsePossibilityArchs_loop.induct)
  case (1 pa i p)
  show ?case
  proof (cases "Peek i = CHR '']''")
    case True
    with "1.prems" show ?thesis
      by (auto simp: parsePossibilityArchs_loop_close)
  next
    case False
    from "1.prems" have nz: "Peek i \<noteq> CHR 0x00"
      by (auto simp: parsePossibilityArchs_loop_eof)
    with "1.prems" False obtain j q where
      step: "parsePossibilityArch pa i p = Inr (j, q)" and
      rest: "parsePossibilityArchs_loop pa j q = Inr (i', p')"
      by (auto simp: parsePossibilityArchs_loop_arch split: sum.splits)
    from "1.IH" [OF refl nz False step refl rest] step
    show ?thesis
      by (auto simp: parsePossibilityArch_def dest: parsePossibilityArch_loop_Not)
  qed
qed

lemma parsePossibilityArchs_Not:
  "parsePossibilityArchs pa i p = Inr (i', p') \<Longrightarrow>
   Not' (Arches p') = (Peek (snd (Next (eatWhitespace i))) = CHR ''!'' \<or> Not' (Arches p))"
  by (auto simp: parsePossibilityArchs_def Let_def split: if_splits
        dest!: parsePossibilityArchs_loop_Not)

lemma parsePossibilityArch_loop_bang:
  "\<forall>x\<in>set tok. x \<noteq> CHR 0x00 \<and> x \<noteq> CHR '']'' \<and> x \<noteq> CHR '' '' \<Longrightarrow>
   parsePossibilityArch_loop pa (cursor pre (tok @ CHR ''!'' # rest)) arch p = Inl NegateWholeBlocks"
proof (induction tok arbitrary: pre arch)
  case Nil
  show ?case by (subst parsePossibilityArch_loop.simps) simp
next
  case (Cons c tok)
  then show ?case
    by (subst parsePossibilityArch_loop.simps) (simp add: Let_def)
qed

lemma dropWhile_before_stop:
  "\<not> P y \<Longrightarrow> dropWhile P (xs @ y # ys) = dropWhile P xs @ y # ys"
  by (induction xs) simp_all

lemma parsePossibilityArch_bang:
  assumes "\<forall>x\<in>set tok. x \<noteq> CHR 0x00 \<and> x \<noteq> CHR '']'' \<and> x \<noteq> CHR '' ''"
  shows "parsePossibilityArch pa (cursor pre (tok @ CHR ''!'' # rest)) p = Inl NegateWholeBlocks"
proof -
  have "dropWhile whitespace (tok @ CHR ''!'' # rest) = dropWhile whitespace tok @ CHR ''!'' # rest"
    by (rule dropWhile_before_stop) (simp add: whitespace_def)
  moreover have "\<forall>x\<in>set (dropWhile whitespace tok). x \<noteq> CHR 0x00 \<and> x \<noteq> CHR '']'' \<and> x \<noteq> CHR '' ''"
    using assms set_dropWhileD by fastforce
  ultimately show ?thesis
    by (simp add: parsePossibilityArch_def eatWhitespace_cursor parsePossibilityArch_loop_bang)
qed

lemma parsePossibilityArchs_loop_bang:
  assumes "\<forall>x\<in>set tok. x \<noteq> CHR 0x00 \<and> x \<noteq> CHR '']'' \<and> x \<noteq> CHR '' ''"
  shows "parsePossibilityArchs_loop pa (cursor pre (tok @ CHR ''!'' # rest)) p = Inl NegateWholeBlocks"
proof -
  have "Peek (cursor pre (tok @ CHR ''!'' # rest)) \<noteq> CHR 0x00 \<and>
      Peek (cursor pre (tok @ CHR ''!'' # rest)) \<noteq> CHR '']''"
    using assms by (cases tok) simp_all
  then show ?thesis
    using parsePossibilityArch_bang [OF assms, of pa pre rest p]
    by (simp add: parsePossibilityArchs_loop_arch)
qed

lemma parsePossibilityArch_ws_bang:
  assumes ws: "\<forall>c\<in>set ws. whitespace c"
    and tok: "\<forall>x\<in>set tok. x \<noteq> CHR 0x00 \<and> x \<noteq> CHR '']'' \<and> x \<noteq> CHR '' ''"
  shows "parsePossibilityArch pa (cursor pre (ws @ tok @ CHR ''!'' # rest)) p = Inl NegateWholeBlocks"
proof -
  have "dropWhile whitespace (ws @ tok @ CHR ''!'' # rest) =
      dropWhile whitespace (tok @ CHR ''!'' # rest)"
    using ws by (simp add: dropWhile_append2)
  also have "\<dots> = dropWhile whitespace tok @ CHR ''!'' # rest"
    by (rule dropWhile_before_stop) (simp add: whitespace_def)
  finally have drop: "dropWhile whitespace (ws @ tok @ CHR ''!'' # rest) =
      dropWhile whitespace tok @ CHR ''!'' # rest" .
  have "\<forall>x\<in>set (dropWhile whitespace tok). x \<noteq> CHR 0x00 \<and> x \<noteq> CHR '']'' \<and> x \<noteq> CHR '' ''"
    using tok set_dropWhileD by fastforce
  then show ?thesis
    by (simp only: parsePossibilityArch_def eatWhitespace_cursor drop parsePossibilityArch_loop_bang)
qed

lemma parsePossibilityArch_loop_token:
  "\<forall>x\<in>set t. x \<noteq> CHR 0x00 \<and> x \<noteq> CHR ''!'' \<and> x \<noteq> CHR '']'' \<and> x \<noteq> CHR '' '' \<Longrightarrow>
   parsePossibilityArch_loop pa (cursor pre (t @ xs)) arch p =
   parsePossibilityArch_loop pa (cursor (pre @ t) xs) (arch @ concat (map string_of_byte t)) p"
proof (induction t arbitrary: pre arch)
  case Nil
  show ?case by simp
next
  case (Cons c t)
  from Cons.prems have step: "parsePossibilityArch_loop pa (cursor pre ((c # t) @ xs)) arch p =
      parsePossibilityArch_loop pa (cursor (pre @ [c]) (t @ xs)) (arch @ string_of_byte c) p"
    by (subst parsePossibilityArch_loop.simps) (simp add: Let_def)
  from Cons.prems Cons.IH [of "pre @ [c]" "arch @ string_of_byte c"] step show ?case
    by simp
qed

lemma parsePossibilityArch_loop_space:
  "parsePossibilityArch_loop pa (cursor pre (CHR '' '' # xs)) arch p =
     (case pa arch of
        Inl err \<Rightarrow> Inl (ArchError err)
      | Inr archObj \<Rightarrow>
          Inr (cursor pre (CHR '' '' # xs),
               p\<lparr>Arches := (Arches p)\<lparr>Arches' := Arches' (Arches p) @ [archObj]\<rparr>\<rparr>))"
  by (subst parsePossibilityArch_loop.simps) (simp add: Let_def)

lemma parsePossibilityArch_accepted:
  assumes t: "\<forall>x\<in>set t. x \<noteq> CHR 0x00 \<and> x \<noteq> CHR ''!'' \<and> x \<noteq> CHR '']'' \<and> x \<noteq> CHR '' ''"
      "t \<noteq> []" "\<not> whitespace (hd t)"
    and ws: "\<forall>c\<in>set ws. whitespace c"
    and pa: "pa (concat (map string_of_byte t)) = Inr a"
  shows "parsePossibilityArch pa (cursor pre (ws @ t @ CHR '' '' # xs)) p =
    Inr (cursor (pre @ ws @ t) (CHR '' '' # xs),
         p\<lparr>Arches := (Arches p)\<lparr>Arches' := Arches' (Arches p) @ [a]\<rparr>\<rparr>)"
proof -
  have "eatWhitespace (cursor pre (ws @ t @ CHR '' '' # xs)) = cursor (pre @ ws) (t @ CHR '' '' # xs)"
    using eatWhitespace_cursor_run [OF ws, of "t @ CHR '' '' # xs" pre] t by simp
  then show ?thesis
    using parsePossibilityArch_loop_token [OF t(1), of pa "pre @ ws" "CHR '' '' # xs" "[]" p] pa
    by (simp add: parsePossibilityArch_def parsePossibilityArch_loop_space)
qed

lemma parsePossibilityArchs_loop_later_bang:
  fixes pa :: "string \<Rightarrow> 'e + 'a" and p :: "('a, 's) Possibility"
  assumes toks: "\<forall>wt\<in>set toks. (\<forall>c\<in>set (fst wt). whitespace c) \<and>
        snd wt \<noteq> [] \<and> \<not> whitespace (hd (snd wt)) \<and>
        (\<forall>x\<in>set (snd wt). x \<noteq> CHR 0x00 \<and> x \<noteq> CHR ''!'' \<and> x \<noteq> CHR '']'' \<and> x \<noteq> CHR '' '') \<and>
        (\<exists>a. pa (concat (map string_of_byte (snd wt))) = Inr a)"
    and ws: "\<forall>c\<in>set ws. whitespace c"
    and tok: "\<forall>x\<in>set tok. x \<noteq> CHR 0x00 \<and> x \<noteq> CHR '']'' \<and> x \<noteq> CHR '' ''"
    and w: "\<forall>c\<in>set w. whitespace c"
  shows "parsePossibilityArchs_loop pa
      (cursor pre (w @ concat (map (\<lambda>wt. fst wt @ snd wt @ [CHR '' '']) toks) @
                   ws @ tok @ CHR ''!'' # rest)) p =
    Inl NegateWholeBlocks"
  using toks w
proof (induction toks arbitrary: pre w p)
  case Nil
  let ?text = "(w @ ws) @ tok @ CHR ''!'' # rest"
  have wws: "\<forall>c\<in>set (w @ ws). whitespace c"
    using Nil.prems ws by auto
  have "Peek (cursor pre ?text) \<noteq> CHR 0x00 \<and> Peek (cursor pre ?text) \<noteq> CHR '']''"
  proof (cases "w @ ws")
    case Nil
    then show ?thesis using tok by (cases tok) simp_all
  next
    case (Cons c cs)
    with wws have "whitespace c" by (metis list.set_intros(1))
    with Cons show ?thesis by (auto simp: whitespace_def)
  qed
  then show ?case
    using parsePossibilityArch_ws_bang [OF wws tok, of pa pre rest p]
    by (simp add: parsePossibilityArchs_loop_arch)
next
  case (Cons wt toks)
  obtain v t where wt: "wt = (v, t)"
    by (cases wt)
  let ?more = "concat (map (\<lambda>wt. fst wt @ snd wt @ [CHR '' '']) toks) @
    ws @ tok @ CHR ''!'' # rest"
  from Cons.prems(1) wt obtain a where
    t: "\<forall>x\<in>set t. x \<noteq> CHR 0x00 \<and> x \<noteq> CHR ''!'' \<and> x \<noteq> CHR '']'' \<and> x \<noteq> CHR '' ''"
      "t \<noteq> []" "\<not> whitespace (hd t)" and a: "pa (concat (map string_of_byte t)) = Inr a"
    and v: "\<forall>c\<in>set v. whitespace c"
    by auto
  have wv: "\<forall>c\<in>set (w @ v). whitespace c"
    using Cons.prems(2) v by auto
  have shape: "w @ concat (map (\<lambda>wt. fst wt @ snd wt @ [CHR '' '']) (wt # toks)) @
      ws @ tok @ CHR ''!'' # rest = (w @ v) @ t @ CHR '' '' # ?more"
    using wt by simp
  have "Peek (cursor pre ((w @ v) @ t @ CHR '' '' # ?more)) \<noteq> CHR 0x00 \<and>
      Peek (cursor pre ((w @ v) @ t @ CHR '' '' # ?more)) \<noteq> CHR '']''"
  proof (cases "w @ v")
    case Nil
    then show ?thesis using t by (cases t) simp_all
  next
    case (Cons c cs)
    with wv have "whitespace c" by (metis list.set_intros(1))
    with Cons show ?thesis by (auto simp: whitespace_def)
  qed
  moreover note parsePossibilityArch_accepted [where pa = pa and pre = pre and xs = ?more and p = p,
      OF t wv a]
  moreover have "parsePossibilityArchs_loop pa (cursor (pre @ (w @ v) @ t) ([CHR '' ''] @ ?more)) q =
      Inl NegateWholeBlocks" for q :: "('a, 's) Possibility"
    using Cons.IH [of "[CHR '' '']" "pre @ (w @ v) @ t" q] Cons.prems(1)
    by (simp add: whitespace_def)
  ultimately show ?case
    unfolding shape by (subst parsePossibilityArchs_loop_arch) simp_all
qed

lemma parsePossibilityArchs_later_bang:
  fixes pa :: "string \<Rightarrow> 'e + 'a" and p :: "('a, 's) Possibility"
  assumes toks: "\<forall>wt\<in>set toks. (\<forall>c\<in>set (fst wt). whitespace c) \<and>
        snd wt \<noteq> [] \<and> \<not> whitespace (hd (snd wt)) \<and>
        (\<forall>x\<in>set (snd wt). x \<noteq> CHR 0x00 \<and> x \<noteq> CHR ''!'' \<and> x \<noteq> CHR '']'' \<and> x \<noteq> CHR '' '') \<and>
        (\<exists>a. pa (concat (map string_of_byte (snd wt))) = Inr a)"
    and ws: "\<forall>c\<in>set ws. whitespace c"
    and tok: "\<forall>x\<in>set tok. x \<noteq> CHR 0x00 \<and> x \<noteq> CHR '']'' \<and> x \<noteq> CHR '' ''"
    and neg: "neg = [] \<or> neg = [CHR ''!'']"
    and some: "neg \<noteq> [] \<or> toks \<noteq> [] \<or> ws \<noteq> [] \<or> tok \<noteq> []"
  shows "parsePossibilityArchs pa
      (cursor pre (CHR ''['' # neg @ concat (map (\<lambda>wt. fst wt @ snd wt @ [CHR '' '']) toks) @
                   ws @ tok @ CHR ''!'' # rest)) p =
    Inl NegateWholeBlocks"
proof -
  let ?body = "concat (map (\<lambda>wt. fst wt @ snd wt @ [CHR '' '']) toks) @
    ws @ tok @ CHR ''!'' # rest"
  have loop: "parsePossibilityArchs_loop pa (cursor pre' ?body) q = Inl NegateWholeBlocks"
    for pre' and q :: "('a, 's) Possibility"
    using parsePossibilityArchs_loop_later_bang [OF toks ws tok, of "[]" pre' rest q] by simp
  have unfold: "parsePossibilityArchs pa (cursor pre (CHR ''['' # xs)) p =
      (if Peek (cursor (pre @ [CHR ''['']) xs) = CHR ''!''
       then parsePossibilityArchs_loop pa (snd (Next (cursor (pre @ [CHR ''['']) xs)))
              (p\<lparr>Arches := (Arches p)\<lparr>Not' := True\<rparr>\<rparr>)
       else parsePossibilityArchs_loop pa (cursor (pre @ [CHR ''['']) xs) p)" for xs
    by (simp add: parsePossibilityArchs_def eatWhitespace_cursor_idle whitespace_def Let_def)
  from neg show ?thesis
  proof
    assume "neg = [CHR ''!'']"
    then show ?thesis
      by (simp add: unfold loop)
  next
    assume empty: "neg = []"
    show ?thesis
    proof (cases "Peek (cursor (pre @ [CHR ''['']) ?body) = CHR ''!''")
      case False
      with empty show ?thesis
        by (simp add: unfold loop)
    next
      case True
      have "toks = []"
      proof (cases toks)
        case (Cons wt ts)
        obtain v t where wt: "wt = (v, t)"
          by (cases wt)
        with Cons toks have t: "t \<noteq> []" "hd t \<noteq> CHR ''!''" and v: "\<forall>c\<in>set v. whitespace c"
          by (auto simp: neq_Nil_conv)
        show ?thesis
        proof (cases v)
          case Nil
          with Cons wt t True show ?thesis
            by (cases t) simp_all
        next
          case (Cons c cs)
          with v have "whitespace c" by simp
          with Cons \<open>toks = wt # ts\<close> wt True show ?thesis
            by (auto simp: whitespace_def)
        qed
      qed simp
      moreover have "ws = []"
      proof (cases ws)
        case (Cons c cs)
        with ws have "whitespace c" by simp
        with Cons True \<open>toks = []\<close> show ?thesis
          by (auto simp: whitespace_def)
      qed simp
      ultimately obtain cs where cs: "tok = CHR ''!'' # cs"
        using some empty True by (cases tok) auto
      have "\<forall>x\<in>set cs. x \<noteq> CHR 0x00 \<and> x \<noteq> CHR '']'' \<and> x \<noteq> CHR '' ''"
        using tok cs by simp
      from parsePossibilityArchs_loop_bang [OF this] empty cs \<open>toks = []\<close> \<open>ws = []\<close>
      show ?thesis
        by (simp add: unfold)
    qed
  qed
qed

lemma Parse_arch_block_error:
  fixes pa :: "string \<Rightarrow> 'e + 'a"
  assumes nm: "\<forall>x\<in>set nm. x \<noteq> CHR '','' \<and> x \<noteq> CHR ''|'' \<and> x \<noteq> CHR 0x00 \<and> \<not> whitespace x" "nm \<noteq> []"
    and sp: "\<forall>c\<in>set sp. whitespace c"
    and block: "\<And>pre (p :: ('a, 's) Possibility).
      parsePossibilityArchs pa (cursor pre (CHR ''['' # body)) p = Inl e"
  shows "Parse pa (nm @ CHR '' '' # sp @ CHR ''['' # body) = (Inl e :: 'e error + ('a, 's) Depedency)"
proof -
  let ?block = "CHR ''['' # body"
  let ?all = "nm @ CHR '' '' # sp @ ?block"
  have chars: "\<forall>x\<in>set nm. x \<noteq> CHR '' '' \<and> x \<noteq> CHR '','' \<and> x \<noteq> CHR ''|'' \<and> x \<noteq> CHR 0x00"
    and hd_nm: "\<not> whitespace (hd nm)"
    using nm by (auto simp: whitespace_def)
  have idle: "eatWhitespace (cursor [] ?all) = cursor [] ?all"
    using nm(2) hd_nm eatWhitespace_cursor_run [of "[]" ?all "[]"] by simp
  have peek: "Peek (cursor [] ?all) \<noteq> CHR 0x00" "Peek (cursor [] ?all) \<noteq> CHR '',''"
    "Peek (cursor [] ?all) \<noteq> CHR ''|''"
    using nm by (cases nm; simp)+
  have skip: "eatWhitespace (cursor nm (CHR '' '' # sp @ ?block)) = cursor (nm @ CHR '' '' # sp) ?block"
    using eatWhitespace_cursor_run [of "CHR '' '' # sp" ?block nm] sp by (simp add: whitespace_def)
  have "parsePossibilityControllers pa (cursor nm (CHR '' '' # sp @ ?block)) (bare nm) =
      (Inl e :: 'e error + Input \<times> ('a, 's) Possibility)"
    using block [of "nm @ CHR '' '' # sp" "bare nm"]
    by (simp add: parsePossibilityControllers_archs skip bare_def)
  then have "parsePossibility_loop pa (cursor nm (CHR '' '' # sp @ ?block)) (bare nm) rel =
      Inl e" for rel :: "('a, 's) Relation"
    by (simp add: parsePossibility_loop_space)
  moreover have "parsePossibility_loop pa (cursor [] ?all) ret rel =
      parsePossibility_loop pa (cursor nm (CHR '' '' # sp @ ?block))
        (ret\<lparr>Name := Name ret @ concat (map string_of_byte nm)\<rparr>) rel"
    for ret :: "('a, 's) Possibility" and rel :: "('a, 's) Relation"
    using parsePossibility_loop_name [OF chars, of pa "[]" "CHR '' '' # sp @ ?block" ret rel] by simp
  ultimately have "parsePossibility pa (cursor [] ?all) rel = Inl e"
    for rel :: "('a, 's) Relation"
    by (simp add: parsePossibility_def idle bare_def)
  with peek have "parseRelation pa (cursor [] ?all) dep = Inl e"
    for dep :: "('a, 's) Depedency"
    by (simp add: parseRelation_def idle parseRelation_loop_possi)
  with peek show ?thesis
    by (simp add: Parse_def parseDependency_def cursor_start idle parseDependency_loop_relation)
qed

section \<open>A NUL byte in the input\<close>

text \<open>
  \<open>Peek\<close> answers 0 at the end of the data and at a NUL byte alike. \<open>ext t i\<close> is the cursor
  \<open>i\<close> with a NUL byte and \<open>t\<close> appended to its data, \<open>inb i\<close> says that \<open>i\<close> is not past the end
  of its data, and \<open>lift t\<close> appends the same bytes to the cursor of a result. Every parser
  returns on the longer data what it returns on the shorter one, and a cursor it returns is
  not past the end: a byte is consumed only where \<open>Peek\<close> is not 0, except by the operator
  parser, which then fails on both inputs.
\<close>

definition inb :: "Input \<Rightarrow> bool" where
  "inb i \<longleftrightarrow> Index i \<le> length (Data i)"

definition ext :: "string \<Rightarrow> Input \<Rightarrow> Input" where
  "ext t i = i\<lparr>Data := Data i @ CHR 0x00 # t\<rparr>"

definition lift :: "string \<Rightarrow> 'e + Input \<times> 'x \<Rightarrow> 'e + Input \<times> 'x" where
  "lift t r = (case r of Inl e \<Rightarrow> Inl e | Inr (i, x) \<Rightarrow> Inr (ext t i, x))"

lemma lift_simps [simp]: "lift t (Inl e) = Inl e" "lift t (Inr (i, x)) = Inr (ext t i, x)"
  by (simp_all add: lift_def)

lemma Peek_ext [simp]: "inb i \<Longrightarrow> Peek (ext t i) = Peek i"
  by (auto simp: Peek_def ext_def inb_def nth_append)

lemma Next_ext [simp]: "snd (Next (ext t i)) = ext t (snd (Next i))"
  by (simp add: Next_def ext_def)

lemma inb_Next: "Peek i \<noteq> CHR 0x00 \<Longrightarrow> inb (snd (Next i))"
  using Peek_in_bounds [of i] by (simp add: inb_def)

lemma inb_eatWhitespace: "inb i \<Longrightarrow> inb (eatWhitespace i)"
proof (induction i rule: eatWhitespace.induct)
  case (1 i)
  show ?case
  proof (cases "Peek i = CHR 0x0D \<or> Peek i = CHR 0x0A \<or> Peek i = CHR '' '' \<or> Peek i = CHR 0x09")
    case True
    then have "inb (snd (Next i))" by (auto intro: inb_Next)
    with "1.IH" [OF refl True] True show ?thesis
      by (subst eatWhitespace.simps) (simp add: Let_def)
  next
    case False
    with "1.prems" show ?thesis
      by (subst eatWhitespace.simps) (simp add: Let_def)
  qed
qed

lemma eatWhitespace_ext: "inb i \<Longrightarrow> eatWhitespace (ext t i) = ext t (eatWhitespace i)"
proof (induction i rule: eatWhitespace.induct)
  case (1 i)
  show ?case
  proof (cases "Peek i = CHR 0x0D \<or> Peek i = CHR 0x0A \<or> Peek i = CHR '' '' \<or> Peek i = CHR 0x09")
    case True
    then have "inb (snd (Next i))" by (auto intro: inb_Next)
    with "1.IH" [OF refl True] True "1.prems" show ?thesis
      by (subst eatWhitespace.simps, subst (2) eatWhitespace.simps) (simp add: Let_def)
  next
    case False
    with "1.prems" show ?thesis
      by (subst eatWhitespace.simps, subst (2) eatWhitespace.simps) (simp add: Let_def)
  qed
qed


lemma parsePossibilityArch_loop_ext:
  "inb i \<Longrightarrow>
   parsePossibilityArch_loop pa (ext t i) a p = lift t (parsePossibilityArch_loop pa i a p) \<and>
   (\<forall>i' p'. parsePossibilityArch_loop pa i a p = Inr (i', p') \<longrightarrow> inb i')"
proof (induction pa i a p rule: parsePossibilityArch_loop.induct)
  case (1 pa i a p)
  show ?case
  proof (cases "Peek i = CHR 0x00 \<or> Peek i = CHR ''!'' \<or> Peek i = CHR '']'' \<or> Peek i = CHR '' ''")
    case True
    with "1.prems" show ?thesis
      by (subst parsePossibilityArch_loop.simps, subst (2 3) parsePossibilityArch_loop.simps)
         (auto simp: Let_def split: sum.splits)
  next
    case False
    then have "inb (snd (Next i))" by (auto intro: inb_Next)
    with "1.IH" [OF refl] False "1.prems" show ?thesis
      by (subst parsePossibilityArch_loop.simps, subst (2 3) parsePossibilityArch_loop.simps)
         (simp add: Let_def)
  qed
qed


lemma parsePossibilityArch_ext:
  assumes "inb i"
  shows "parsePossibilityArch pa (ext t i) p = lift t (parsePossibilityArch pa i p) \<and>
   (\<forall>i' p'. parsePossibilityArch pa i p = Inr (i', p') \<longrightarrow> inb i')"
proof -
  have j: "inb (eatWhitespace i)"
    using assms by (rule inb_eatWhitespace)
  from parsePossibilityArch_loop_ext [OF j, of pa t "[]" p] show ?thesis
    by (simp add: parsePossibilityArch_def eatWhitespace_ext [OF assms])
qed

lemma parsePossibilityArchs_loop_ext:
  "inb i \<Longrightarrow>
   parsePossibilityArchs_loop pa (ext t i) p = lift t (parsePossibilityArchs_loop pa i p) \<and>
   (\<forall>i' p'. parsePossibilityArchs_loop pa i p = Inr (i', p') \<longrightarrow> inb i')"
proof (induction pa i p rule: parsePossibilityArchs_loop.induct)
  case (1 pa i p)
  note inb = "1.prems"
  consider (eof) "Peek i = CHR 0x00" | (close) "Peek i \<noteq> CHR 0x00" "Peek i = CHR '']''"
    | (arch) "Peek i \<noteq> CHR 0x00" "Peek i \<noteq> CHR '']''"
    by blast
  then show ?case
  proof cases
    case eof
    with inb show ?thesis
      by (simp add: parsePossibilityArchs_loop_eof)
  next
    case close
    then have "inb (snd (Next i))" by (auto intro: inb_Next)
    with close inb show ?thesis
      by (simp add: parsePossibilityArchs_loop_close)
  next
    case arch
    note step = parsePossibilityArch_ext [OF inb, of pa t p]
    show ?thesis
    proof (cases "parsePossibilityArch pa i p")
      case (Inl e)
      with arch inb step show ?thesis
        by (simp add: parsePossibilityArchs_loop_arch)
    next
      case (Inr r)
      obtain j q where r: "r = (j, q)" by (cases r)
      with Inr step have "inb j" by simp
      from "1.IH" [OF refl arch Inr r [symmetric] this] arch inb step Inr r
      show ?thesis
        by (simp add: parsePossibilityArchs_loop_arch)
    qed
  qed
qed

lemma parsePossibilityArchs_ext:
  assumes "inb i" and "Peek (eatWhitespace i) \<noteq> CHR 0x00"
  shows "parsePossibilityArchs pa (ext t i) p = lift t (parsePossibilityArchs pa i p) \<and>
   (\<forall>i' p'. parsePossibilityArchs pa i p = Inr (i', p') \<longrightarrow> inb i')"
proof -
  let ?j = "snd (Next (eatWhitespace i))"
  have j: "inb ?j"
    using assms(2) by (rule inb_Next)
  show ?thesis
  proof (cases "Peek ?j = CHR ''!''")
    case True
    then have "inb (snd (Next ?j))" by (auto intro: inb_Next)
    from parsePossibilityArchs_loop_ext [OF this] True j assms(1) show ?thesis
      by (simp add: parsePossibilityArchs_def Let_def eatWhitespace_ext)
  next
    case False
    with parsePossibilityArchs_loop_ext [OF j] j assms(1) show ?thesis
      by (simp add: parsePossibilityArchs_def Let_def eatWhitespace_ext)
  qed
qed

text \<open>The last step of \<open>parsePossibilityOperator\<close>, on the two bytes read.\<close>

definition operator_result :: "char \<Rightarrow> char \<Rightarrow> Input \<Rightarrow> VersionRelation \<Rightarrow> 'e error + Input \<times> VersionRelation" where
  "operator_result l s i v =
     (let operator = string_of_byte l @ string_of_byte s in
      if operator = ''>='' \<or> operator = ''<='' \<or> operator = ''<<'' \<or> operator = ''>>''
      then Inr (i, v\<lparr>Operator := operator\<rparr>)
      else Inl (UnknownOperator operator))"

lemma parsePossibilityOperator_unfold:
  "parsePossibilityOperator i v =
     (if Peek (eatWhitespace i) = CHR ''='' then Inr (snd (Next (eatWhitespace i)), v\<lparr>Operator := ''=''\<rparr>)
      else if Peek (eatWhitespace i) = CHR 0x00 \<or> Peek (snd (Next (eatWhitespace i))) = CHR 0x00
      then Inl EOFInOperator
      else operator_result (Peek (eatWhitespace i)) (Peek (snd (Next (eatWhitespace i))))
             (snd (Next (snd (Next (eatWhitespace i))))) v)"
  by (simp add: parsePossibilityOperator_def operator_result_def Let_def)

lemma operator_result_ext:
  "operator_result l s (ext t i) v = (lift t (operator_result l s i v) :: 'e error + _)"
  by (simp add: operator_result_def Let_def)

lemma operator_result_Inr:
  "operator_result l s i v = Inr (i', v') \<Longrightarrow> i' = i"
  by (simp add: operator_result_def Let_def split: if_splits)

lemma parsePossibilityOperator_ext:
  assumes "inb i"
  shows "parsePossibilityOperator (ext t i) v = (lift t (parsePossibilityOperator i v) :: 'e error + _) \<and>
   (\<forall>i' v'. parsePossibilityOperator i v = (Inr (i', v') :: 'e error + _) \<longrightarrow> inb i')"
proof -
  let ?j = "eatWhitespace i"
  have j: "inb ?j" using assms by (rule inb_eatWhitespace)
  show ?thesis
  proof (cases "Peek ?j = CHR 0x00")
    case True
    with j assms show ?thesis
      by (simp add: parsePossibilityOperator_unfold eatWhitespace_ext)
  next
    case nz: False
    then have k: "inb (snd (Next ?j))" by (rule inb_Next)
    show ?thesis
    proof (cases "Peek (snd (Next ?j)) = CHR 0x00")
      case True
      with j k nz assms show ?thesis
        by (simp add: parsePossibilityOperator_unfold eatWhitespace_ext)
    next
      case False
      then have "inb (snd (Next (snd (Next ?j))))" by (rule inb_Next)
      with j k nz False assms show ?thesis
        by (auto simp: parsePossibilityOperator_unfold eatWhitespace_ext operator_result_ext
              dest: operator_result_Inr)
    qed
  qed
qed

lemma parsePossibilityNumber_loop_eof:
  "Peek i = CHR 0x00 \<Longrightarrow> parsePossibilityNumber_loop i v = Inl EOFInNumber"
  by (subst parsePossibilityNumber_loop.simps) (simp add: Let_def)

lemma parsePossibilityNumber_loop_close:
  "Peek i = CHR '')'' \<Longrightarrow> parsePossibilityNumber_loop i v = Inr (i, v)"
  by (subst parsePossibilityNumber_loop.simps) (simp add: Let_def)

lemma parsePossibilityNumber_loop_char:
  "Peek i \<noteq> CHR 0x00 \<Longrightarrow> Peek i \<noteq> CHR '')'' \<Longrightarrow>
   parsePossibilityNumber_loop i v =
     parsePossibilityNumber_loop (snd (Next i)) (v\<lparr>Number := Number v @ string_of_byte (Peek i)\<rparr>)"
  by (subst parsePossibilityNumber_loop.simps) (simp add: Let_def)

lemma parsePossibilityNumber_loop_ext:
  "inb i \<Longrightarrow>
   parsePossibilityNumber_loop (ext t i) v = (lift t (parsePossibilityNumber_loop i v) :: 'e error + _) \<and>
   (\<forall>i' v'. parsePossibilityNumber_loop i v = (Inr (i', v') :: 'e error + _) \<longrightarrow> inb i')"
proof (induction i v rule: parsePossibilityNumber_loop.induct)
  case (1 i v)
  note inb = "1.prems"
  consider (eof) "Peek i = CHR 0x00" | (close) "Peek i \<noteq> CHR 0x00" "Peek i = CHR '')''"
    | (char) "Peek i \<noteq> CHR 0x00" "Peek i \<noteq> CHR '')''"
    by blast
  then show ?case
  proof cases
    case eof
    with inb show ?thesis
      by (simp add: parsePossibilityNumber_loop_eof)
  next
    case close
    with inb show ?thesis
      by (simp add: parsePossibilityNumber_loop_close)
  next
    case char
    then have "inb (snd (Next i))" by (auto intro: inb_Next)
    from "1.IH" [OF refl char this] char inb show ?thesis
      by (simp add: parsePossibilityNumber_loop_char)
  qed
qed

lemma parsePossibilityNumber_ext:
  assumes "inb i"
  shows "parsePossibilityNumber (ext t i) v = (lift t (parsePossibilityNumber i v) :: 'e error + _) \<and>
   (\<forall>i' v'. parsePossibilityNumber i v = (Inr (i', v') :: 'e error + _) \<longrightarrow> inb i')"
proof -
  have j: "inb (eatWhitespace i)"
    using assms by (rule inb_eatWhitespace)
  from parsePossibilityNumber_loop_ext [OF j, of t v, where 'e = 'e] show ?thesis
    by (simp add: parsePossibilityNumber_def eatWhitespace_ext [OF assms])
qed

lemma parsePossibilityNumber_loop_stops:
  "parsePossibilityNumber_loop i v = Inr (i', v') \<Longrightarrow> Peek i' = CHR '')''"
  by (induction i v rule: parsePossibilityNumber_loop.induct)
     (subst (asm) (2) parsePossibilityNumber_loop.simps, auto simp: Let_def split: if_splits)

lemma parsePossibilityVersion_unfold:
  "parsePossibilityVersion i p =
     (case parsePossibilityOperator (snd (Next (eatWhitespace i))) \<lparr>Number = [], Operator = []\<rparr> of
        Inl err \<Rightarrow> Inl err
      | Inr (j, v) \<Rightarrow>
          (case parsePossibilityNumber j v of
             Inl err \<Rightarrow> Inl err
           | Inr (k, w) \<Rightarrow> Inr (snd (Next k), p\<lparr>Version := Some w\<rparr>)))"
  unfolding parsePossibilityVersion_def Let_def ..

lemma parsePossibilityVersion_ext:
  fixes p :: "('a, 's) Possibility"
  assumes "inb i" and "Peek (eatWhitespace i) \<noteq> CHR 0x00"
  shows "parsePossibilityVersion (ext t i) p =
      (lift t (parsePossibilityVersion i p) :: 'e error + Input \<times> ('a, 's) Possibility) \<and>
   (\<forall>i' p'. parsePossibilityVersion i p = (Inr (i', p') :: 'e error + Input \<times> ('a, 's) Possibility)
      \<longrightarrow> inb i')"
proof -
  let ?j = "snd (Next (eatWhitespace i))"
  let ?v = "\<lparr>Number = [], Operator = []\<rparr>"
  have j: "inb ?j"
    using assms(2) by (rule inb_Next)
  have start: "snd (Next (eatWhitespace (ext t i))) = ext t ?j"
    using assms(1) by (simp add: eatWhitespace_ext)
  have op: "parsePossibilityOperator (ext t ?j) ?v =
      (lift t (parsePossibilityOperator ?j ?v) :: 'e error + Input \<times> VersionRelation)"
    using parsePossibilityOperator_ext [OF j, of t ?v, where 'e = 'e] by (rule conjunct1)
  show ?thesis
  proof (cases "parsePossibilityOperator ?j ?v :: 'e error + Input \<times> VersionRelation")
    case (Inl e)
    have "parsePossibilityVersion i p = (Inl e :: 'e error + Input \<times> ('a, 's) Possibility)"
      by (subst parsePossibilityVersion_unfold) (simp only: Inl sum.case)
    moreover have "parsePossibilityVersion (ext t i) p =
        (Inl e :: 'e error + Input \<times> ('a, 's) Possibility)"
      by (subst parsePossibilityVersion_unfold) (simp only: start op Inl lift_simps sum.case)
    ultimately show ?thesis by simp
  next
    case (Inr r)
    then obtain k w where opr:
      "parsePossibilityOperator ?j ?v = (Inr (k, w) :: 'e error + Input \<times> VersionRelation)"
      by (cases r) simp
    with parsePossibilityOperator_ext [OF j, of t ?v, where 'e = 'e] have k: "inb k"
      by blast
    have num: "parsePossibilityNumber (ext t k) w =
        (lift t (parsePossibilityNumber k w) :: 'e error + Input \<times> VersionRelation)"
      using parsePossibilityNumber_ext [OF k, of t w, where 'e = 'e] by (rule conjunct1)
    show ?thesis
    proof (cases "parsePossibilityNumber k w :: 'e error + Input \<times> VersionRelation")
      case (Inl e)
      have "parsePossibilityVersion i p = (Inl e :: 'e error + Input \<times> ('a, 's) Possibility)"
        by (subst parsePossibilityVersion_unfold) (simp only: opr Inl sum.case prod.case)
      moreover have "parsePossibilityVersion (ext t i) p =
          (Inl e :: 'e error + Input \<times> ('a, 's) Possibility)"
        by (subst parsePossibilityVersion_unfold)
           (simp only: start op opr num Inl lift_simps sum.case prod.case)
      ultimately show ?thesis by simp
    next
      case (Inr r')
      then obtain l x where numr:
        "parsePossibilityNumber k w = (Inr (l, x) :: 'e error + Input \<times> VersionRelation)"
        by (cases r') simp
      then have "Peek l = CHR '')''"
        by (auto simp: parsePossibilityNumber_def dest: parsePossibilityNumber_loop_stops)
      then have l: "inb (snd (Next l))" by (auto intro: inb_Next)
      have "parsePossibilityVersion i p =
          (Inr (snd (Next l), p\<lparr>Version := Some x\<rparr>) :: 'e error + Input \<times> ('a, 's) Possibility)"
        by (subst parsePossibilityVersion_unfold) (simp only: opr numr sum.case prod.case)
      moreover have "parsePossibilityVersion (ext t i) p =
          (Inr (ext t (snd (Next l)), p\<lparr>Version := Some x\<rparr>)
            :: 'e error + Input \<times> ('a, 's) Possibility)"
        by (subst parsePossibilityVersion_unfold)
           (simp only: start op opr num numr lift_simps sum.case prod.case Next_ext)
      ultimately show ?thesis using l by simp
    qed
  qed
qed

lemma parsePossibilityControllers_ext:
  fixes pa :: "string \<Rightarrow> 'e + 'a" and p :: "('a, 's) Possibility"
  shows "inb i \<Longrightarrow>
   parsePossibilityControllers pa (ext t i) p = lift t (parsePossibilityControllers pa i p) \<and>
   (\<forall>i' p'. parsePossibilityControllers pa i p = Inr (i', p') \<longrightarrow> inb i')"
proof (induction pa i p rule: parsePossibilityControllers.induct)
  case (1 pa i p)
  note inb = "1.prems"
  let ?j = "eatWhitespace i"
  have j: "inb ?j" using inb by (rule inb_eatWhitespace)
  have ej: "eatWhitespace (ext t i) = ext t ?j"
    using inb by (rule eatWhitespace_ext)
  have ejj: "eatWhitespace ?j = ?j"
    using eatWhitespace_stops [of i] by (simp add: eatWhitespace_idle)
  consider (stop) "Peek ?j = CHR '','' \<or> Peek ?j = CHR ''|'' \<or> Peek ?j = CHR 0x00"
    | (version) "\<not> (Peek ?j = CHR '','' \<or> Peek ?j = CHR ''|'' \<or> Peek ?j = CHR 0x00)"
        "Peek ?j = CHR ''(''"
    | (archs) "\<not> (Peek ?j = CHR '','' \<or> Peek ?j = CHR ''|'' \<or> Peek ?j = CHR 0x00)"
        "Peek ?j \<noteq> CHR ''(''" "Peek ?j = CHR ''[''"
    | (other) "\<not> (Peek ?j = CHR '','' \<or> Peek ?j = CHR ''|'' \<or> Peek ?j = CHR 0x00)"
        "Peek ?j \<noteq> CHR ''(''" "Peek ?j \<noteq> CHR ''[''"
    by blast
  then show ?case
  proof cases
    case stop
    with j ej show ?thesis
      by (simp add: parsePossibilityControllers_stop)
  next
    case version
    have peek: "Peek (eatWhitespace (ext t i)) = CHR ''(''"
      using version j ej by simp
    show ?thesis
    proof (cases "Version p \<noteq> None")
      case True
      with version peek show ?thesis
        by (simp add: parsePossibilityControllers_version)
    next
      case none: False
      have nz: "Peek (eatWhitespace ?j) \<noteq> CHR 0x00"
        using version ejj by simp
      note step = parsePossibilityVersion_ext [OF j nz, of t p, where 'e = 'e]
      show ?thesis
      proof (cases "parsePossibilityVersion ?j p :: 'e error + Input \<times> ('a, 's) Possibility")
        case (Inl e)
        with version peek none step ej show ?thesis
          by (simp add: parsePossibilityControllers_version)
      next
        case (Inr r)
        then obtain k q where run:
          "parsePossibilityVersion ?j p = (Inr (k, q) :: 'e error + Input \<times> ('a, 's) Possibility)"
          by (cases r) simp
        with step have "inb k" by simp
        from "1.IH" (1) [OF refl refl version none run refl this] version peek none step ej run
        show ?thesis
          by (simp add: parsePossibilityControllers_version)
      qed
    qed
  next
    case archs
    have peek: "Peek (eatWhitespace (ext t i)) = CHR ''[''"
      using archs j ej by simp
    show ?thesis
    proof (cases "length (Arches' (Arches p)) \<noteq> 0")
      case True
      with archs peek show ?thesis
        by (simp add: parsePossibilityControllers_archs)
    next
      case none: False
      have nz: "Peek (eatWhitespace ?j) \<noteq> CHR 0x00"
        using archs ejj by simp
      note step = parsePossibilityArchs_ext [OF j nz, of pa t p]
      show ?thesis
      proof (cases "parsePossibilityArchs pa ?j p")
        case (Inl e)
        with archs peek none step ej show ?thesis
          by (simp add: parsePossibilityControllers_archs)
      next
        case (Inr r)
        then obtain k q where run: "parsePossibilityArchs pa ?j p = Inr (k, q)"
          by (cases r) simp
        with step have "inb k" by simp
        from "1.IH" (2) [OF refl refl archs none run refl this] archs peek none step ej run
        show ?thesis
          by (simp add: parsePossibilityControllers_archs)
      qed
    qed
  next
    case other
    then have "Peek (eatWhitespace (ext t i)) = Peek ?j"
      using j ej by simp
    with other show ?thesis
      by (simp add: parsePossibilityControllers_other)
  qed
qed

lemma parsePossibility_loop_ext:
  fixes pa :: "string \<Rightarrow> 'e + 'a" and ret :: "('a, 's) Possibility"
  shows "inb i \<Longrightarrow>
   parsePossibility_loop pa (ext t i) ret rel = lift t (parsePossibility_loop pa i ret rel) \<and>
   (\<forall>i' rel'. parsePossibility_loop pa i ret rel = Inr (i', rel') \<longrightarrow> inb i')"
proof (induction pa i ret rel rule: parsePossibility_loop.induct)
  case (1 pa i ret rel)
  note inb = "1.prems"
  have peek: "Peek (ext t i) = Peek i"
    using inb by simp
  consider (space) "Peek i = CHR '' ''"
    | (stop) "Peek i \<noteq> CHR '' ''" "Peek i = CHR '','' \<or> Peek i = CHR ''|'' \<or> Peek i = CHR 0x00"
    | (char) "Peek i \<noteq> CHR '' ''" "\<not> (Peek i = CHR '','' \<or> Peek i = CHR ''|'' \<or> Peek i = CHR 0x00)"
    by blast
  then show ?case
  proof cases
    case space
    note step = parsePossibilityControllers_ext [OF inb, of pa t ret]
    show ?thesis
    proof (cases "parsePossibilityControllers pa i ret")
      case (Inl e)
      with space peek step show ?thesis
        by (simp add: parsePossibility_loop_space)
    next
      case (Inr r)
      then obtain j q where run: "parsePossibilityControllers pa i ret = Inr (j, q)"
        by (cases r) simp
      with step have "inb j" by simp
      from "1.IH" (1) [OF refl space run refl this] space peek step run show ?thesis
        by (simp add: parsePossibility_loop_space)
    qed
  next
    case stop
    with peek inb show ?thesis
      by (simp add: parsePossibility_loop_stop)
  next
    case char
    then have next_inb: "inb (snd (Next i))" by (auto intro: inb_Next)
    from char have c: "Peek i \<noteq> CHR '',''" "Peek i \<noteq> CHR ''|''" "Peek i \<noteq> CHR 0x00"
      by simp_all
    from "1.IH" (2) [OF refl char next_inb] char(1) c peek show ?thesis
      by (simp add: parsePossibility_loop_char)
  qed
qed

lemma parsePossibility_ext:
  fixes pa :: "string \<Rightarrow> 'e + 'a" and rel :: "('a, 's) Relation"
  assumes "inb i"
  shows "parsePossibility pa (ext t i) rel = lift t (parsePossibility pa i rel) \<and>
   (\<forall>i' rel'. parsePossibility pa i rel = Inr (i', rel') \<longrightarrow> inb i')"
proof -
  have j: "inb (eatWhitespace i)"
    using assms by (rule inb_eatWhitespace)
  from parsePossibility_loop_ext [OF j, of pa t _ rel] show ?thesis
    by (simp add: parsePossibility_def eatWhitespace_ext [OF assms])
qed

lemma parseRelation_loop_ext:
  fixes pa :: "string \<Rightarrow> 'e + 'a" and ret :: "('a, 's) Relation"
  shows "inb i \<Longrightarrow>
   parseRelation_loop pa (ext t i) ret dep = lift t (parseRelation_loop pa i ret dep) \<and>
   (\<forall>i' dep'. parseRelation_loop pa i ret dep = Inr (i', dep') \<longrightarrow> inb i')"
proof (induction pa i ret dep rule: parseRelation_loop.induct)
  case (1 pa i ret dep)
  note inb = "1.prems"
  have peek: "Peek (ext t i) = Peek i"
    using inb by simp
  consider (stop) "Peek i = CHR 0x00 \<or> Peek i = CHR '',''"
    | (pipe) "\<not> (Peek i = CHR 0x00 \<or> Peek i = CHR '','')" "Peek i = CHR ''|''"
    | (possi) "\<not> (Peek i = CHR 0x00 \<or> Peek i = CHR '','')" "Peek i \<noteq> CHR ''|''"
    by blast
  then show ?case
  proof cases
    case stop
    with peek inb show ?thesis
      by (simp add: parseRelation_loop_stop)
  next
    case pipe
    then have n: "inb (snd (Next i))" by (auto intro: inb_Next)
    then have j: "inb (eatWhitespace (snd (Next i)))" by (rule inb_eatWhitespace)
    from "1.IH" (1) [OF refl pipe j] pipe(2) peek show ?thesis
      by (simp add: parseRelation_loop_pipe eatWhitespace_ext [OF n])
  next
    case possi
    then have c: "Peek i \<noteq> CHR 0x00" "Peek i \<noteq> CHR '',''" by simp_all
    note step = parsePossibility_ext [OF inb, of pa t ret]
    show ?thesis
    proof (cases "parsePossibility pa i ret")
      case (Inl e)
      with c possi(2) peek step show ?thesis
        by (simp add: parseRelation_loop_possi)
    next
      case (Inr r)
      then obtain j q where run: "parsePossibility pa i ret = Inr (j, q)"
        by (cases r) simp
      with step have "inb j" by simp
      from "1.IH" (2) [OF refl possi run refl this] c possi(2) peek step run show ?thesis
        by (simp add: parseRelation_loop_possi)
    qed
  qed
qed

lemma parseRelation_ext:
  fixes pa :: "string \<Rightarrow> 'e + 'a" and dep :: "('a, 's) Depedency"
  assumes "inb i"
  shows "parseRelation pa (ext t i) dep = lift t (parseRelation pa i dep) \<and>
   (\<forall>i' dep'. parseRelation pa i dep = Inr (i', dep') \<longrightarrow> inb i')"
proof -
  have j: "inb (eatWhitespace i)"
    using assms by (rule inb_eatWhitespace)
  from parseRelation_loop_ext [OF j, of pa t _ dep] show ?thesis
    by (simp add: parseRelation_def eatWhitespace_ext [OF assms])
qed

lemma parseDependency_loop_ext:
  fixes pa :: "string \<Rightarrow> 'e + 'a" and dep :: "('a, 's) Depedency"
  shows "inb i \<Longrightarrow>
   parseDependency_loop pa (ext t i) dep = lift t (parseDependency_loop pa i dep)"
proof (induction pa i dep rule: parseDependency_loop.induct)
  case (1 pa i dep)
  note inb = "1.prems"
  have peek: "Peek (ext t i) = Peek i"
    using inb by simp
  consider (eof) "Peek i = CHR 0x00"
    | (comma) "Peek i \<noteq> CHR 0x00" "Peek i = CHR '',''"
    | (relation) "Peek i \<noteq> CHR 0x00" "Peek i \<noteq> CHR '',''"
    by blast
  then show ?case
  proof cases
    case eof
    with peek show ?thesis
      by (simp add: parseDependency_loop_eof)
  next
    case comma
    then have n: "inb (snd (Next i))" by (auto intro: inb_Next)
    then have j: "inb (eatWhitespace (snd (Next i)))" by (rule inb_eatWhitespace)
    from "1.IH" (1) [OF refl comma j] comma(2) peek show ?thesis
      by (simp add: parseDependency_loop_comma eatWhitespace_ext [OF n])
  next
    case relation
    note step = parseRelation_ext [OF inb, of pa t dep]
    show ?thesis
    proof (cases "parseRelation pa i dep")
      case (Inl e)
      with relation peek step show ?thesis
        by (simp add: parseDependency_loop_relation)
    next
      case (Inr r)
      then obtain j d where run: "parseRelation pa i dep = Inr (j, d)"
        by (cases r) simp
      with step have "inb j" by simp
      from "1.IH" (2) [OF refl relation run refl this] relation peek step run show ?thesis
        by (simp add: parseDependency_loop_relation)
    qed
  qed
qed

lemma Parse_NUL_tail:
  fixes pa :: "string \<Rightarrow> 'e + 'a"
  shows "Parse pa (s @ CHR 0x00 # t) = (Parse pa s :: 'e error + ('a, 's) Depedency)"
proof -
  let ?i = "\<lparr>Data = s, Index = 0\<rparr>"
  have start: "\<lparr>Data = s @ CHR 0x00 # t, Index = 0\<rparr> = ext t ?i"
    by (simp add: ext_def)
  have i: "inb ?i" by (simp add: inb_def)
  then have j: "inb (eatWhitespace ?i)" by (rule inb_eatWhitespace)
  have "parseDependency pa (ext t ?i) \<lparr>Relations = []\<rparr> =
      (lift t (parseDependency pa ?i \<lparr>Relations = []\<rparr>) :: 'e error + Input \<times> ('a, 's) Depedency)"
    using parseDependency_loop_ext [OF j, of pa t]
    by (simp add: parseDependency_def eatWhitespace_ext [OF i])
  then show ?thesis
    by (simp add: Parse_def start lift_def split: sum.splits)
qed

section \<open>Relations and their possibilities\<close>

text \<open>
  \<open>unread i\<close> is the input that the cursor \<open>i\<close> has not consumed, and \<open>consumed i j\<close> the
  bytes between the cursor \<open>i\<close> and a later cursor \<open>j\<close> of the same input: the text that a
  parser has read when it is entered at \<open>i\<close> and returns \<open>j\<close>. \<open>pipes_only t\<close>: the text
  \<open>t\<close> has pipes and whitespace only. \<open>separators s\<close>: \<open>s\<close> has commas and whitespace only.
  \<open>relation_text t\<close>: \<open>t\<close> is not empty and begins with a byte at which the dependency loop
  calls \<open>parseRelation\<close>, no comma, no NUL and no whitespace.
\<close>

definition unread :: "Input \<Rightarrow> string" where
  "unread i = drop (Index i) (Data i)"

lemma Peek_unread: "Peek i = (case unread i of [] \<Rightarrow> CHR 0x00 | c # _ \<Rightarrow> c)"
proof (cases "Index i < length (Data i)")
  case True
  then show ?thesis
    by (simp add: Peek_def unread_def Cons_nth_drop_Suc [symmetric])
next
  case False
  then show ?thesis
    by (simp add: Peek_def unread_def)
qed

lemma unread_Next: "unread (snd (Next i)) = tl (unread i)"
  by (simp add: unread_def Next_def drop_Suc tl_drop)

lemma unread_eatWhitespace: "unread (eatWhitespace i) = dropWhile whitespace (unread i)"
proof (induction i rule: eatWhitespace.induct)
  case (1 i)
  show ?case
  proof (cases "whitespace (Peek i)")
    case True
    then have step: "eatWhitespace i = eatWhitespace (snd (Next i))"
      by (subst eatWhitespace.simps) (simp add: whitespace_def Let_def)
    from True obtain c cs where r: "unread i = c # cs" "whitespace c"
      by (auto simp: Peek_unread whitespace_def split: list.splits)
    from True have "Peek i = CHR 0x0D \<or> Peek i = CHR 0x0A \<or> Peek i = CHR '' '' \<or> Peek i = CHR 0x09"
      by (simp add: whitespace_def)
    from "1.IH" [OF refl this] step r show ?thesis
      by (simp add: unread_Next)
  next
    case False
    then have "eatWhitespace i = i"
      by (simp add: eatWhitespace_idle whitespace_def)
    moreover from False have "dropWhile whitespace (unread i) = unread i"
      by (cases "unread i") (auto simp: Peek_unread whitespace_def)
    ultimately show ?thesis by simp
  qed
qed

lemma unread_later:
  "Data i' = Data i \<Longrightarrow> Index i \<le> Index i' \<Longrightarrow> unread i' = drop (Index i' - Index i) (unread i)"
  by (simp add: unread_def)

lemma parsePossibility_loop_appends:
  fixes pa :: "string \<Rightarrow> 'e + 'a"
  shows "parsePossibility_loop pa i ret rel = Inr (i', rel') \<Longrightarrow> Possibilities rel' \<noteq> []"
proof (induction pa i ret rel rule: parsePossibility_loop.induct)
  case (1 pa i ret rel)
  consider (space) "Peek i = CHR '' ''"
    | (stop) "Peek i \<noteq> CHR '' ''" "Peek i = CHR '','' \<or> Peek i = CHR ''|'' \<or> Peek i = CHR 0x00"
    | (char) "Peek i \<noteq> CHR '' ''" "\<not> (Peek i = CHR '','' \<or> Peek i = CHR ''|'' \<or> Peek i = CHR 0x00)"
    by blast
  then show ?case
  proof cases
    case space
    with "1.prems" obtain j q where
      step: "parsePossibilityControllers pa i ret = Inr (j, q)" and
      run: "parsePossibility_loop pa j q rel = Inr (i', rel')"
      by (auto simp: parsePossibility_loop_space split: sum.splits)
    from "1.IH" (1) [OF refl space step refl run] show ?thesis .
  next
    case stop
    with "1.prems" show ?thesis
      by (auto simp: parsePossibility_loop_stop split: if_splits)
  next
    case char
    with "1.prems" have
      "parsePossibility_loop pa (snd (Next i))
         (ret\<lparr>Name := Name ret @ string_of_byte (fst (Next i))\<rparr>) rel = Inr (i', rel')"
      by (simp add: parsePossibility_loop_char)
    from "1.IH" (2) [OF refl char this] show ?thesis .
  qed
qed

lemma parsePossibility_appends:
  fixes pa :: "string \<Rightarrow> 'e + 'a"
  shows "parsePossibility pa i rel = Inr (i', rel') \<Longrightarrow> Possibilities rel' \<noteq> []"
  by (auto simp: parsePossibility_def dest: parsePossibility_loop_appends)

lemma parseRelation_loop_result:
  fixes pa :: "string \<Rightarrow> 'e + 'a"
  shows "parseRelation_loop pa i ret dep = Inr (i', dep') \<Longrightarrow>
    (Peek i' = CHR 0x00 \<or> Peek i' = CHR '','') \<and>
    (\<exists>r. Relations dep' = Relations dep @ [r] \<and>
       (Possibilities ret \<noteq> [] \<or> (Peek i \<noteq> CHR 0x00 \<and> Peek i \<noteq> CHR '','' \<and> Peek i \<noteq> CHR ''|'')
          \<longrightarrow> Possibilities r \<noteq> []))"
proof (induction pa i ret dep rule: parseRelation_loop.induct)
  case (1 pa i ret dep)
  consider (stop) "Peek i = CHR 0x00 \<or> Peek i = CHR '',''"
    | (pipe) "\<not> (Peek i = CHR 0x00 \<or> Peek i = CHR '','')" "Peek i = CHR ''|''"
    | (possi) "\<not> (Peek i = CHR 0x00 \<or> Peek i = CHR '','')" "Peek i \<noteq> CHR ''|''"
    by blast
  then show ?case
  proof cases
    case stop
    with "1.prems" show ?thesis
      by (auto simp: parseRelation_loop_stop)
  next
    case pipe
    with "1.prems" have
      "parseRelation_loop pa (eatWhitespace (snd (Next i))) ret dep = Inr (i', dep')"
      by (simp add: parseRelation_loop_pipe)
    from "1.IH" (1) [OF refl pipe this] pipe show ?thesis
      by auto
  next
    case possi
    with "1.prems" obtain j r where
      step: "parsePossibility pa i ret = Inr (j, r)" and
      run: "parseRelation_loop pa j r dep = Inr (i', dep')"
      by (auto simp: parseRelation_loop_possi split: sum.splits)
    from "1.IH" (2) [OF refl possi step refl run] parsePossibility_appends [OF step]
    show ?thesis by auto
  qed
qed

definition consumed :: "Input \<Rightarrow> Input \<Rightarrow> string" where
  "consumed i j = take (Index j - Index i) (unread i)"

definition pipes_only :: "string \<Rightarrow> bool" where
  "pipes_only t \<longleftrightarrow> list_all (\<lambda>c. c = CHR ''|'' \<or> whitespace c) t"

definition separators :: "string \<Rightarrow> bool" where
  "separators s \<longleftrightarrow> list_all (\<lambda>c. c = CHR '','' \<or> whitespace c) s"

definition relation_text :: "string \<Rightarrow> bool" where
  "relation_text t \<longleftrightarrow> t \<noteq> [] \<and> hd t \<noteq> CHR '','' \<and> hd t \<noteq> CHR 0x00 \<and> \<not> whitespace (hd t)"

lemma consumed_self [simp]: "consumed i i = []"
  by (simp add: consumed_def)

lemma unread_consumed:
  assumes "Data j = Data i" "Index i \<le> Index j"
  shows "unread i = consumed i j @ unread j"
proof -
  have "unread j = drop (Index j - Index i) (unread i)"
    using assms by (rule unread_later)
  then show ?thesis
    by (simp add: consumed_def)
qed

lemma consumed_append:
  assumes "Data j = Data i" "Index i \<le> Index j" "Index j \<le> Index k"
  shows "consumed i k = consumed i j @ consumed j k"
proof -
  have "Index k - Index i = (Index j - Index i) + (Index k - Index j)"
    using assms by simp
  then have "consumed i k = take (Index j - Index i) (unread i) @
      take (Index k - Index j) (drop (Index j - Index i) (unread i))"
    by (simp only: consumed_def take_add)
  moreover have "drop (Index j - Index i) (unread i) = unread j"
    using assms by (simp add: unread_def)
  ultimately show ?thesis
    by (simp add: consumed_def)
qed

lemma consumed_Next: "Peek i \<noteq> CHR 0x00 \<Longrightarrow> consumed i (snd (Next i)) = [Peek i]"
  by (cases "unread i") (auto simp: consumed_def Peek_unread)

lemma consumed_eatWhitespace: "consumed i (eatWhitespace i) = takeWhile whitespace (unread i)"
proof -
  have "unread i = consumed i (eatWhitespace i) @ unread (eatWhitespace i)"
    by (rule unread_consumed) (simp_all add: eatWhitespace_Index)
  then have "consumed i (eatWhitespace i) @ dropWhile whitespace (unread i) =
      takeWhile whitespace (unread i) @ dropWhile whitespace (unread i)"
    by (simp add: unread_eatWhitespace)
  then show ?thesis
    by (simp only: append_same_eq)
qed

lemma pipes_only_simps [simp]:
  "pipes_only []"
  "pipes_only (c # cs) \<longleftrightarrow> (c = CHR ''|'' \<or> whitespace c) \<and> pipes_only cs"
  "pipes_only (xs @ ys) \<longleftrightarrow> pipes_only xs \<and> pipes_only ys"
  by (simp_all add: pipes_only_def)

lemma pipes_only_takeWhile [simp]: "pipes_only (takeWhile whitespace xs)"
  by (induction xs) simp_all

lemma separators_simps [simp]:
  "separators []"
  "separators (c # cs) \<longleftrightarrow> (c = CHR '','' \<or> whitespace c) \<and> separators cs"
  "separators (xs @ ys) \<longleftrightarrow> separators xs \<and> separators ys"
  by (simp_all add: separators_def)

lemma separators_takeWhile [simp]: "separators (takeWhile whitespace xs)"
  by (induction xs) simp_all

text \<open>A possibility consumes a byte of its name, which is no pipe and no whitespace.\<close>

lemma parsePossibility_consumed:
  fixes pa :: "string \<Rightarrow> 'e + 'a"
  assumes run: "parsePossibility pa i rel = Inr (j, rel')"
  shows "\<not> pipes_only (consumed i j)"
proof -
  let ?i = "eatWhitespace i"
  let ?bare = "\<lparr>Name = [], Version = None, Arches = \<lparr>Not' = False, Arches' = []\<rparr>,
    Stages = \<lparr>Stages' = []\<rparr>\<rparr> :: ('a, 's) Possibility"
  from run have loop: "parsePossibility_loop pa ?i ?bare rel = Inr (j, rel')"
    by (simp add: parsePossibility_def)
  have ws: "\<not> whitespace (Peek ?i)"
    using eatWhitespace_stops [of i] by (simp add: whitespace_def)
  then have space: "Peek ?i \<noteq> CHR '' ''"
    by (auto simp: whitespace_def)
  have stop: "\<not> (Peek ?i = CHR '','' \<or> Peek ?i = CHR ''|'' \<or> Peek ?i = CHR 0x00)"
  proof
    assume "Peek ?i = CHR '','' \<or> Peek ?i = CHR ''|'' \<or> Peek ?i = CHR 0x00"
    from parsePossibility_loop_stop [OF this, of pa ?bare rel] loop show False
      by simp
  qed
  with space loop have next_run: "parsePossibility_loop pa (snd (Next ?i))
      (?bare\<lparr>Name := Name ?bare @ string_of_byte (Peek ?i)\<rparr>) rel = Inr (j, rel')"
    by (simp add: parsePossibility_loop_char)
  from parsePossibility_loop_mono [OF next_run]
  have later: "Data j = Data i" "Suc (Index ?i) \<le> Index j"
    by simp_all
  have "consumed i j = consumed i ?i @ consumed ?i j"
    using later eatWhitespace_Index [of i] by (intro consumed_append) simp_all
  also have "consumed ?i j = consumed ?i (snd (Next ?i)) @ consumed (snd (Next ?i)) j"
    using later by (intro consumed_append) simp_all
  also have "consumed ?i (snd (Next ?i)) = [Peek ?i]"
    using stop by (intro consumed_Next) simp
  finally show ?thesis
    using stop ws by simp
qed

lemma parseRelation_loop_empty_iff:
  fixes pa :: "string \<Rightarrow> 'e + 'a"
  shows "parseRelation_loop pa i ret dep = Inr (i', dep') \<Longrightarrow>
    (\<exists>r. Relations dep' = Relations dep @ [r] \<and>
       (Possibilities r = []) = (Possibilities ret = [] \<and> pipes_only (consumed i i')))"
proof (induction pa i ret dep rule: parseRelation_loop.induct)
  case (1 pa i ret dep)
  consider (stop) "Peek i = CHR 0x00 \<or> Peek i = CHR '',''"
    | (pipe) "\<not> (Peek i = CHR 0x00 \<or> Peek i = CHR '','')" "Peek i = CHR ''|''"
    | (possi) "\<not> (Peek i = CHR 0x00 \<or> Peek i = CHR '','')" "Peek i \<noteq> CHR ''|''"
    by blast
  then show ?case
  proof cases
    case stop
    with "1.prems" show ?thesis
      by (auto simp: parseRelation_loop_stop)
  next
    case pipe
    let ?n = "snd (Next i)"
    let ?j = "eatWhitespace ?n"
    from pipe "1.prems" have run: "parseRelation_loop pa ?j ret dep = Inr (i', dep')"
      by (simp add: parseRelation_loop_pipe)
    from parseRelation_loop_mono [OF run] have later: "Data i' = Data i" "Index ?j \<le> Index i'"
      by simp_all
    have nj: "Index ?n \<le> Index ?j"
      by (rule eatWhitespace_Index)
    have "consumed i i' = consumed i ?n @ consumed ?n i'"
      using later nj by (intro consumed_append) simp_all
    also have "consumed ?n i' = consumed ?n ?j @ consumed ?j i'"
      using later nj by (intro consumed_append) simp_all
    also have "consumed i ?n = [CHR ''|'']"
      using pipe consumed_Next [of i] by simp
    finally have "pipes_only (consumed i i') = pipes_only (consumed ?j i')"
      by (simp add: consumed_eatWhitespace)
    with "1.IH" (1) [OF refl pipe run] show ?thesis
      by simp
  next
    case possi
    with "1.prems" obtain j r where
      step: "parsePossibility pa i ret = Inr (j, r)" and
      run: "parseRelation_loop pa j r dep = Inr (i', dep')"
      by (auto simp: parseRelation_loop_possi split: sum.splits)
    from possi have "Data j = Data i \<and> Index i < Index j"
      by (intro parsePossibility_progress [OF step]) simp_all
    moreover from parseRelation_loop_mono [OF run] have "Data i' = Data j" "Index j \<le> Index i'"
      by simp_all
    ultimately have "consumed i i' = consumed i j @ consumed j i'"
      by (intro consumed_append) simp_all
    with parsePossibility_consumed [OF step] have "\<not> pipes_only (consumed i i')"
      by simp
    with "1.IH" (2) [OF refl possi step refl run] parsePossibility_appends [OF step]
    show ?thesis by auto
  qed
qed

lemma parseRelation_empty_iff:
  fixes pa :: "string \<Rightarrow> 'e + 'a"
  assumes run: "parseRelation pa i dep = Inr (i', dep')"
  shows "\<exists>r. Relations dep' = Relations dep @ [r] \<and>
       (Possibilities r = []) = pipes_only (consumed i i')"
proof -
  let ?j = "eatWhitespace i"
  from run have loop: "parseRelation_loop pa ?j \<lparr>Possibilities = []\<rparr> dep = Inr (i', dep')"
    by (simp add: parseRelation_def)
  from parseRelation_loop_mono [OF loop] have "Data i' = Data i" "Index ?j \<le> Index i'"
    by simp_all
  then have "consumed i i' = consumed i ?j @ consumed ?j i'"
    using eatWhitespace_Index [of i] by (intro consumed_append) simp_all
  then have "pipes_only (consumed i i') = pipes_only (consumed ?j i')"
    by (simp add: consumed_eatWhitespace)
  with parseRelation_loop_empty_iff [OF loop] show ?thesis
    by simp
qed


lemma parseRelation_stops:
  fixes pa :: "string \<Rightarrow> 'e + 'a"
  assumes "parseRelation pa i dep = Inr (i', dep')"
  shows "Peek i' = CHR 0x00 \<or> Peek i' = CHR '',''"
  using parseRelation_loop_result [of pa "eatWhitespace i" "\<lparr>Possibilities = []\<rparr>" dep i' dep'] assms
  by (simp add: parseRelation_def)

lemma consumed_relation_text:
  assumes "Data j = Data i" "Index i < Index j"
    and "Peek i \<noteq> CHR 0x00" "Peek i \<noteq> CHR '',''" "\<not> whitespace (Peek i)"
  shows "relation_text (consumed i j)"
proof -
  from assms(3) obtain c cs where u: "unread i = c # cs" "Peek i = c"
    by (cases "unread i") (auto simp: Peek_unread)
  from assms(2) obtain n where "Index j - Index i = Suc n"
    by (cases "Index j - Index i") auto
  with u have "consumed i j = c # take n cs"
    by (simp add: consumed_def)
  with u assms show ?thesis
    by (simp add: relation_text_def)
qed

lemma parseDependency_loop_segments:
  fixes pa :: "string \<Rightarrow> 'e + 'a"
  shows "parseDependency_loop pa i dep = Inr (i', dep') \<Longrightarrow> \<not> whitespace (Peek i) \<Longrightarrow>
    \<exists>lead segs tail rs.
      unread i = lead @ concat (map (\<lambda>(t, s). t @ s) segs) @ tail \<and>
      separators lead \<and> (lead = [] \<or> hd lead = CHR '','') \<and>
      (tail = [] \<or> hd tail = CHR 0x00) \<and>
      Relations dep' = Relations dep @ rs \<and>
      list_all2 (\<lambda>r (t, s). relation_text t \<and> separators s \<and> (s = [] \<or> hd s = CHR '','') \<and>
                   (Possibilities r = []) = pipes_only t) rs segs"
proof (induction pa i dep rule: parseDependency_loop.induct)
  case (1 pa i dep)
  note run = "1.prems" (1) and start = "1.prems" (2)
  consider (eof) "Peek i = CHR 0x00"
    | (comma) "Peek i \<noteq> CHR 0x00" "Peek i = CHR '',''"
    | (relation) "Peek i \<noteq> CHR 0x00" "Peek i \<noteq> CHR '',''"
    by blast
  then show ?case
  proof cases
    case eof
    with run have res: "dep' = dep"
      by (simp add: parseDependency_loop_eof)
    from eof have "unread i = [] \<or> hd (unread i) = CHR 0x00"
      by (cases "unread i") (auto simp: Peek_unread)
    with res show ?thesis
      by (intro exI [of _ "[]"] exI [of _ "unread i"]) simp
  next
    case comma
    let ?j = "eatWhitespace (snd (Next i))"
    from comma obtain cs where u: "unread i = CHR '','' # cs"
      by (auto simp: Peek_unread split: list.splits)
    have uj: "unread ?j = dropWhile whitespace cs"
      using u by (simp add: unread_eatWhitespace unread_Next)
    have ws: "\<not> whitespace (Peek ?j)"
      using eatWhitespace_stops [of "snd (Next i)"] by (simp add: whitespace_def)
    from run comma have loop: "parseDependency_loop pa ?j dep = Inr (i', dep')"
      by (simp add: parseDependency_loop_comma)
    from "1.IH" (1) [OF refl comma loop ws] obtain lead segs tail rs where
      split: "unread ?j = lead @ concat (map (\<lambda>(t, s). t @ s) segs) @ tail" and
      lead: "separators lead" and
      rest: "tail = [] \<or> hd tail = CHR 0x00" "Relations dep' = Relations dep @ rs"
        "list_all2 (\<lambda>r (t, s). relation_text t \<and> separators s \<and> (s = [] \<or> hd s = CHR '','') \<and>
                   (Possibilities r = []) = pipes_only t) rs segs"
      by blast
    let ?lead = "CHR '','' # takeWhile whitespace cs @ lead"
    have "unread i = CHR '','' # takeWhile whitespace cs @ dropWhile whitespace cs"
      using u by simp
    with split uj have "unread i = ?lead @ concat (map (\<lambda>(t, s). t @ s) segs) @ tail"
      by simp
    moreover have "separators ?lead" "?lead = [] \<or> hd ?lead = CHR '',''"
      using lead by simp_all
    ultimately show ?thesis
      using rest by blast
  next
    case relation
    with run obtain j d where
      step: "parseRelation pa i dep = Inr (j, d)" and
      loop: "parseDependency_loop pa j d = Inr (i', dep')"
      by (auto simp: parseDependency_loop_relation split: sum.splits)
    have later: "Data j = Data i \<and> Index i < Index j"
      using parseRelation_progress [OF step relation] .
    from parseRelation_stops [OF step] have ws: "\<not> whitespace (Peek j)"
      by (auto simp: whitespace_def)
    from parseRelation_empty_iff [OF step] obtain r where
      r: "Relations d = Relations dep @ [r]" "(Possibilities r = []) = pipes_only (consumed i j)"
      by blast
    have t: "relation_text (consumed i j)"
      using later relation start by (intro consumed_relation_text) simp_all
    have u: "unread i = consumed i j @ unread j"
      using later by (intro unread_consumed) simp_all
    from "1.IH" (2) [OF refl relation step refl loop ws] obtain lead segs tail rs where
      split: "unread j = lead @ concat (map (\<lambda>(t, s). t @ s) segs) @ tail" and
      lead: "separators lead" "lead = [] \<or> hd lead = CHR '',''" and
      tail: "tail = [] \<or> hd tail = CHR 0x00" and
      rs: "Relations dep' = Relations d @ rs" and
      segs: "list_all2 (\<lambda>r (t, s). relation_text t \<and> separators s \<and> (s = [] \<or> hd s = CHR '','') \<and>
                   (Possibilities r = []) = pipes_only t) rs segs"
      by blast
    let ?segs = "(consumed i j, lead) # segs"
    have "unread i = [] @ concat (map (\<lambda>(t, s). t @ s) ?segs) @ tail"
      using u split by simp
    moreover have "Relations dep' = Relations dep @ r # rs"
      using r rs by simp
    moreover have "list_all2 (\<lambda>r (t, s). relation_text t \<and> separators s \<and>
        (s = [] \<or> hd s = CHR '','') \<and> (Possibilities r = []) = pipes_only t) (r # rs) ?segs"
      using segs t lead r by simp
    moreover have "separators []"
      by simp
    ultimately show ?thesis
      using tail by blast
  qed
qed

lemma Parse_segments:
  fixes pa :: "string \<Rightarrow> 'e + 'a"
  assumes "Parse pa str = Inr dep"
  shows "\<exists>lead segs tail.
      str = lead @ concat (map (\<lambda>(t, s). t @ s) segs) @ tail \<and>
      separators lead \<and> (tail = [] \<or> hd tail = CHR 0x00) \<and>
      list_all2 (\<lambda>r (t, s). relation_text t \<and> separators s \<and> (s = [] \<or> hd s = CHR '','') \<and>
                   (Possibilities r = []) = pipes_only t) (Relations dep) segs"
proof -
  let ?i = "\<lparr>Data = str, Index = 0\<rparr>"
  let ?j = "eatWhitespace ?i"
  have u: "unread ?i = str"
    by (simp add: unread_def)
  from assms obtain i' where
    run: "parseDependency_loop pa ?j \<lparr>Relations = []\<rparr> = Inr (i', dep)"
    by (auto simp: Parse_def parseDependency_def split: sum.splits)
  have ws: "\<not> whitespace (Peek ?j)"
    using eatWhitespace_stops [of ?i] by (simp add: whitespace_def)
  from parseDependency_loop_segments [OF run ws] obtain lead segs tail rs where
    split: "unread ?j = lead @ concat (map (\<lambda>(t, s). t @ s) segs) @ tail" and
    lead: "separators lead" and
    tail: "tail = [] \<or> hd tail = CHR 0x00" and
    rs: "Relations dep = rs" and
    segs: "list_all2 (\<lambda>r (t, s). relation_text t \<and> separators s \<and> (s = [] \<or> hd s = CHR '','') \<and>
                   (Possibilities r = []) = pipes_only t) rs segs"
    by auto
  let ?lead = "takeWhile whitespace str @ lead"
  have "str = takeWhile whitespace str @ dropWhile whitespace str"
    by simp
  also have "dropWhile whitespace str = unread ?j"
    using u by (simp add: unread_eatWhitespace)
  finally have "str = ?lead @ concat (map (\<lambda>(t, s). t @ s) segs) @ tail"
    using split by simp
  moreover have "separators ?lead"
    using lead by simp
  ultimately show ?thesis
    using tail segs rs by blast
qed


text \<open>A text of pipes and whitespace, up to a comma, a NUL or the end: an empty relation.\<close>

lemma parseRelation_loop_pipes:
  fixes pa :: "string \<Rightarrow> 'e + 'a"
  assumes "pipes_only t" and "rest = [] \<or> hd rest = CHR '','' \<or> hd rest = CHR 0x00"
  shows "parseRelation_loop pa (eatWhitespace (cursor pre (t @ rest))) ret dep =
    (Inr (cursor (pre @ t) rest, dep\<lparr>Relations := Relations dep @ [ret]\<rparr>)
      :: 'e error + Input \<times> ('a, 's) Depedency)"
  using assms(1)
proof (induction t arbitrary: pre)
  case Nil
  from assms(2) have stop: "Peek (cursor pre rest) = CHR 0x00 \<or> Peek (cursor pre rest) = CHR '',''"
    by (cases rest) auto
  then have "eatWhitespace (cursor pre rest) = cursor pre rest"
    by (intro eatWhitespace_idle) auto
  with stop show ?case
    by (simp add: parseRelation_loop_stop)
next
  case (Cons c cs)
  then have cs: "pipes_only cs" and c: "c = CHR ''|'' \<or> whitespace c"
    by simp_all
  have step: "eatWhitespace (cursor (pre @ [c]) (cs @ rest)) =
      eatWhitespace (snd (Next (cursor pre ((c # cs) @ rest))))"
    by simp
  show ?case
  proof (cases "whitespace c")
    case True
    then have "eatWhitespace (cursor pre ((c # cs) @ rest)) =
        eatWhitespace (cursor (pre @ [c]) (cs @ rest))"
      by (simp add: eatWhitespace_cursor)
    with Cons.IH [OF cs, of "pre @ [c]"] show ?thesis
      by simp
  next
    case False
    with c have pipe: "c = CHR ''|''"
      by simp
    from False have "eatWhitespace (cursor pre ((c # cs) @ rest)) = cursor pre ((c # cs) @ rest)"
      by (simp add: eatWhitespace_cursor_idle)
    moreover have "parseRelation_loop pa (cursor pre ((c # cs) @ rest)) ret dep =
        parseRelation_loop pa (eatWhitespace (cursor (pre @ [c]) (cs @ rest))) ret dep"
      using pipe by (subst parseRelation_loop_pipe) simp_all
    ultimately show ?thesis
      using Cons.IH [OF cs, of "pre @ [c]"] by simp
  qed
qed

lemma parseRelation_pipes:
  fixes pa :: "string \<Rightarrow> 'e + 'a"
  assumes "pipes_only t" and "rest = [] \<or> hd rest = CHR '','' \<or> hd rest = CHR 0x00"
  shows "parseRelation pa (cursor pre (t @ rest)) dep =
    (Inr (cursor (pre @ t) rest, dep\<lparr>Relations := Relations dep @ [\<lparr>Possibilities = []\<rparr>]\<rparr>)
      :: 'e error + Input \<times> ('a, 's) Depedency)"
  using parseRelation_loop_pipes [OF assms] by (simp add: parseRelation_def)

lemma Parse_pipes:
  fixes pa :: "string \<Rightarrow> 'e + 'a"
  assumes t: "pipes_only t" and pipe: "CHR ''|'' \<in> set t"
  shows "Parse pa t = (Inr \<lparr>Relations = [\<lparr>Possibilities = []\<rparr>]\<rparr> :: 'e error + ('a, 's) Depedency)"
proof -
  let ?ws = "takeWhile whitespace t"
  let ?u = "dropWhile whitespace t"
  have split: "t = ?ws @ ?u"
    by simp
  from pipe have "\<not> list_all whitespace t"
    by (auto simp: list_all_iff whitespace_def)
  then have "?u \<noteq> []"
    by (simp add: list_all_iff)
  then obtain c cs where u: "?u = c # cs"
    by (cases ?u) auto
  then have "\<not> whitespace c"
    using hd_dropWhile [of whitespace t] by simp
  moreover from t split have "pipes_only ?u"
    by (metis pipes_only_simps(3))
  ultimately have c: "c = CHR ''|''"
    using u by simp
  have start: "eatWhitespace (cursor [] t) = cursor ?ws ?u"
    by (simp add: eatWhitespace_cursor)
  have peek: "Peek (cursor ?ws ?u) \<noteq> CHR 0x00" "Peek (cursor ?ws ?u) \<noteq> CHR '',''"
    using u c by simp_all
  have "parseRelation pa (cursor ?ws (?u @ [])) \<lparr>Relations = []\<rparr> =
      (Inr (cursor (?ws @ ?u) [], \<lparr>Relations = []\<rparr>\<lparr>Relations := Relations \<lparr>Relations = []\<rparr> @ [\<lparr>Possibilities = []\<rparr>]\<rparr>)
        :: 'e error + Input \<times> ('a, 's) Depedency)"
    using \<open>pipes_only ?u\<close> by (intro parseRelation_pipes) simp_all
  then have rel: "parseRelation pa (cursor ?ws ?u) \<lparr>Relations = []\<rparr> =
      (Inr (cursor (?ws @ ?u) [], \<lparr>Relations = [\<lparr>Possibilities = []\<rparr>]\<rparr>)
        :: 'e error + Input \<times> ('a, 's) Depedency)"
    by simp
  have "parseDependency_loop pa (cursor ?ws ?u) \<lparr>Relations = []\<rparr> =
      (Inr (cursor (?ws @ ?u) [], \<lparr>Relations = [\<lparr>Possibilities = []\<rparr>]\<rparr>)
        :: 'e error + Input \<times> ('a, 's) Depedency)"
    by (simp only: parseDependency_loop_relation [OF peek] rel sum.case prod.case)
       (simp add: parseDependency_loop_eof)
  then show ?thesis
    by (simp add: Parse_def parseDependency_def cursor_start start)
qed

section \<open>Evaluation on concrete inputs\<close>

text \<open>
  The equations that the simplifier unfolds to run the parser on a literal string. The
  recursive equations are safe there: the simplifier decides the test of an \<open>if\<close> and the
  scrutinee of a \<open>case\<close> before it looks at the branches.
\<close>

lemmas parser_eval = Parse_def parseDependency_def parseDependency_loop.simps parseRelation_def
  parseRelation_loop.simps parsePossibility_def parsePossibility_loop.simps
  parsePossibilityControllers.simps parsePossibilityVersion_def parsePossibilityOperator_def
  parsePossibilityNumber_def parsePossibilityNumber_loop.simps parsePossibilityArchs_def
  parsePossibilityArchs_loop.simps parsePossibilityArch_def parsePossibilityArch_loop.simps
  eatWhitespace.simps Peek_def Next_def Let_def string_of_byte_def

section \<open>A second architecture block (C1)\<close>

text \<open>
  The guard of \<open>parsePossibilityControllers\<close> does reject a second \<open>[\<close> once the
  architecture list of the possibility is not empty.
\<close>

lemma parsePossibilityControllers_duplicate_arch:
  "Peek (eatWhitespace i) = CHR ''['' \<Longrightarrow> Arches' (Arches p) \<noteq> [] \<Longrightarrow>
   parsePossibilityControllers pa i p = Inl DuplicateArch"
  by (simp add: parsePossibilityControllers_archs)

text \<open>
  C1: a term with two bracketed architecture blocks is to fail with the
  duplicate-architecture error, also when the first block is the empty list. The guard tests
  the length of the architecture list, which an empty first block leaves at 0: on
  \<open>foo [] []\<close> the parser accepts the second block and returns the possibility \<open>foo\<close>,
  whatever the architecture validator is.
\<close>

theorem Parse_second_arch_block_after_empty:
  "Parse pa ''foo [] []'' =
     Inr \<lparr>Relations = [\<lparr>Possibilities = [\<lparr>Name = ''foo'', Version = None,
       Arches = \<lparr>Not' = False, Arches' = []\<rparr>, Stages = \<lparr>Stages' = []\<rparr>\<rparr>]\<rparr>]\<rparr>"
  by (simp add: parser_eval)

section \<open>Non-empty relations (C2)\<close>




section \<open>Empty and blank inputs (C3)\<close>

text \<open>
  C3: on the empty string and on every string of spaces, tabs, carriage returns and
  newlines only, \<open>Parse\<close> succeeds and returns the dependency with no relation.
\<close>

theorem Parse_blank:
  assumes "\<forall>c\<in>set str. c = CHR '' '' \<or> c = CHR 0x09 \<or> c = CHR 0x0D \<or> c = CHR 0x0A"
  shows "Parse pa str = Inr \<lparr>Relations = []\<rparr>"
proof -
  from assms have "\<forall>c\<in>set str. whitespace c"
    by (auto simp: whitespace_def)
  then have "eatWhitespace (cursor [] str) = cursor str []"
    by (simp add: eatWhitespace_cursor_all)
  then show ?thesis
    by (simp add: Parse_def parseDependency_def cursor_start parseDependency_loop_eof)
qed

theorem Parse_blank_witness:
  "Parse (\<lambda>a. Inr a) [] = (Inr \<lparr>Relations = []\<rparr> :: unit error + (string, unit) Depedency)
   \<and> Parse (\<lambda>a. Inr a) [CHR '' '', CHR 0x09, CHR 0x0D, CHR 0x0A, CHR '' '']
       = (Inr \<lparr>Relations = []\<rparr> :: unit error + (string, unit) Depedency)"
  using Parse_blank [where 'c = unit, of "[]" "\<lambda>a. Inr a :: unit + string"]
    Parse_blank [where 'c = unit,
      of "[CHR '' '', CHR 0x09, CHR 0x0D, CHR 0x0A, CHR '' '']" "\<lambda>a. Inr a :: unit + string"]
  by simp

section \<open>A bracket next to the name (C4)\<close>

text \<open>
  C4: the possibility loop hands the input to the controllers only at a space. A \<open>(\<close> or
  \<open>[\<close> that it reads itself, with no space before it, is appended to the name as it is and
  the loop goes on. So an input made of a name, such a bracket and further bytes, none of
  them a space, a comma, a pipe or NUL, is a single possibility whose name is the whole
  input and which has no version constraint (bytes of 128 and above are stored in the name
  as Go's \<open>string\<close> conversion encodes them): \<open>foo(>=1.0)\<close> is the possibility named
  \<open>foo(>=1.0)\<close>.
\<close>

theorem bracket_after_name_is_name:
  fixes pa :: "string \<Rightarrow> 'e + 'a"
  assumes "c = CHR ''('' \<or> c = CHR ''[''"
  shows "(Peek i = c \<longrightarrow>
            parsePossibility_loop pa i ret rel =
            parsePossibility_loop pa (snd (Next i)) (ret\<lparr>Name := Name ret @ [c]\<rparr>) rel)
    \<and> ((\<forall>x\<in>set (nm @ body). x \<noteq> CHR '' '' \<and> x \<noteq> CHR '','' \<and> x \<noteq> CHR ''|'' \<and> x \<noteq> CHR 0x00)
         \<and> nm \<noteq> [] \<and> hd nm \<noteq> CHR 0x09 \<and> hd nm \<noteq> CHR 0x0D \<and> hd nm \<noteq> CHR 0x0A \<longrightarrow>
        Parse pa (nm @ c # body) =
          (Inr \<lparr>Relations = [\<lparr>Possibilities = [\<lparr>
             Name = concat (map string_of_byte nm) @ c # concat (map string_of_byte body),
             Version = None, Arches = \<lparr>Not' = False, Arches' = []\<rparr>,
             Stages = \<lparr>Stages' = []\<rparr>\<rparr>]\<rparr>]\<rparr> :: 'e error + ('a, 's) Depedency))"
proof (intro conjI impI)
  have byte: "string_of_byte c = [c]"
    using assms by (auto simp: string_of_byte_def)
  {
    assume "Peek i = c"
    with assms byte show "parsePossibility_loop pa i ret rel =
        parsePossibility_loop pa (snd (Next i)) (ret\<lparr>Name := Name ret @ [c]\<rparr>) rel"
      by (auto simp: parsePossibility_loop_char)
  }
  {
    assume h: "(\<forall>x\<in>set (nm @ body). x \<noteq> CHR '' '' \<and> x \<noteq> CHR '','' \<and> x \<noteq> CHR ''|'' \<and> x \<noteq> CHR 0x00)
         \<and> nm \<noteq> [] \<and> hd nm \<noteq> CHR 0x09 \<and> hd nm \<noteq> CHR 0x0D \<and> hd nm \<noteq> CHR 0x0A"
    have "Parse pa (nm @ c # body) =
        (Inr \<lparr>Relations = [\<lparr>Possibilities = [\<lparr>
           Name = concat (map string_of_byte (nm @ c # body)),
           Version = None, Arches = \<lparr>Not' = False, Arches' = []\<rparr>,
           Stages = \<lparr>Stages' = []\<rparr>\<rparr>]\<rparr>]\<rparr> :: 'e error + ('a, 's) Depedency)"
    proof (rule Parse_single_name)
      show "\<forall>x\<in>set (nm @ c # body).
          x \<noteq> CHR '' '' \<and> x \<noteq> CHR '','' \<and> x \<noteq> CHR ''|'' \<and> x \<noteq> CHR 0x00"
        using h assms by auto
      show "nm @ c # body \<noteq> []" by simp
      show "\<not> whitespace (hd (nm @ c # body))"
        using h by (auto simp: whitespace_def)
    qed
    then show "Parse pa (nm @ c # body) =
        (Inr \<lparr>Relations = [\<lparr>Possibilities = [\<lparr>
           Name = concat (map string_of_byte nm) @ c # concat (map string_of_byte body),
           Version = None, Arches = \<lparr>Not' = False, Arches' = []\<rparr>,
           Stages = \<lparr>Stages' = []\<rparr>\<rparr>]\<rparr>]\<rparr> :: 'e error + ('a, 's) Depedency)"
      by (simp add: byte)
  }
qed

theorem bracket_after_name_is_name_witness:
  "Parse (\<lambda>a. Inr a) ''foo(>=1.0)'' =
     (Inr \<lparr>Relations = [\<lparr>Possibilities = [\<lparr>Name = ''foo(>=1.0)'', Version = None,
        Arches = \<lparr>Not' = False, Arches' = []\<rparr>, Stages = \<lparr>Stages' = []\<rparr>\<rparr>]\<rparr>]\<rparr>
      :: unit error + (string, unit) Depedency)
   \<and> Parse (\<lambda>a. Inr a) ''foo[amd64]'' =
     (Inr \<lparr>Relations = [\<lparr>Possibilities = [\<lparr>Name = ''foo[amd64]'', Version = None,
        Arches = \<lparr>Not' = False, Arches' = []\<rparr>, Stages = \<lparr>Stages' = []\<rparr>\<rparr>]\<rparr>]\<rparr>
      :: unit error + (string, unit) Depedency)"
  using
    bracket_after_name_is_name [where 'e = unit and 'a = string and 's = unit,
      of "CHR ''(''" _ "\<lambda>a. Inr a" _ _ "''foo''" "''>=1.0)''", THEN conjunct2]
    bracket_after_name_is_name [where 'e = unit and 'a = string and 's = unit,
      of "CHR ''[''" _ "\<lambda>a. Inr a" _ _ "''foo''" "''amd64]''", THEN conjunct2]
  by (simp add: string_of_byte_def)

section \<open>Version operators (C5)\<close>

text \<open>
  The operator token is built by \<open>string([]rune{rune(leader), rune(secondary)})\<close>. It is
  one of the four two-byte operators exactly when the two bytes read are.
\<close>

lemma operator_token_eq:
  "string_of_byte l @ string_of_byte s = [a, b] \<longleftrightarrow>
   [l, s] = [a, b] \<and> (of_char l :: nat) < 128 \<and> (of_char s :: nat) < 128"
  by (auto simp: string_of_byte_def Let_def)

lemma operator_token_ascii:
  "(of_char a :: nat) < 128 \<Longrightarrow> (of_char b :: nat) < 128 \<Longrightarrow>
   string_of_byte l @ string_of_byte s = [a, b] \<longleftrightarrow> l = a \<and> s = b"
  by (auto simp: operator_token_eq)

text \<open>
  C5: after the whitespace, the byte \<open>=\<close> alone is the operator \<open>=\<close>. Otherwise a second
  byte is read; the end of the input at either byte is the end-of-input error of the
  operator; the two bytes \<open>>=\<close>, \<open><=\<close>, \<open><<\<close> or \<open>>>\<close> are the operator; every other
  token is the unknown-operator error, which carries the token as Go's \<open>string\<close> conversion
  of the two bytes forms it (the two bytes themselves when both are ASCII). On
  \<open>foo (~> 1.0)\<close>, \<open>Parse\<close> fails with the unknown operator \<open>~>\<close>.
\<close>

theorem parsePossibilityOperator_cases:
  fixes pa :: "string \<Rightarrow> 'e + 'a"
  shows "(parsePossibilityOperator input version :: 'e error + _) =
     (let i0 = eatWhitespace input;
          leader = Peek i0;
          secondary = Peek (snd (Next i0)) in
      if leader = CHR ''='' then Inr (snd (Next i0), version\<lparr>Operator := ''=''\<rparr>)
      else if leader = CHR 0x00 \<or> secondary = CHR 0x00 then Inl EOFInOperator
      else if [leader, secondary] \<in> {''>='', ''<='', ''<<'', ''>>''}
      then Inr (snd (Next (snd (Next i0))), version\<lparr>Operator := [leader, secondary]\<rparr>)
      else Inl (UnknownOperator (string_of_byte leader @ string_of_byte secondary)))
   \<and> Parse pa ''foo (~> 1.0)'' = (Inl (UnknownOperator ''~>'') :: 'e error + ('a, 's) Depedency)"
proof
  show "Parse pa ''foo (~> 1.0)'' = (Inl (UnknownOperator ''~>'') :: 'e error + ('a, 's) Depedency)"
    by (simp add: parser_eval)
  show "(parsePossibilityOperator input version :: 'e error + _) =
     (let i0 = eatWhitespace input;
          leader = Peek i0;
          secondary = Peek (snd (Next i0)) in
      if leader = CHR ''='' then Inr (snd (Next i0), version\<lparr>Operator := ''=''\<rparr>)
      else if leader = CHR 0x00 \<or> secondary = CHR 0x00 then Inl EOFInOperator
      else if [leader, secondary] \<in> {''>='', ''<='', ''<<'', ''>>''}
      then Inr (snd (Next (snd (Next i0))), version\<lparr>Operator := [leader, secondary]\<rparr>)
      else Inl (UnknownOperator (string_of_byte leader @ string_of_byte secondary)))"
    by (auto simp: parsePossibilityOperator_def Let_def operator_token_ascii)
qed

theorem parsePossibilityOperator_cases_witness:
  "parsePossibilityOperator \<lparr>Data = ''foo ( <= 1.0)'', Index = 5\<rparr> \<lparr>Number = [], Operator = []\<rparr>
     = (Inr (\<lparr>Data = ''foo ( <= 1.0)'', Index = 8\<rparr>, \<lparr>Number = [], Operator = ''<=''\<rparr>)
          :: unit error + _)
   \<and> parsePossibilityOperator \<lparr>Data = ''foo (~> 1.0)'', Index = 5\<rparr> \<lparr>Number = [], Operator = []\<rparr>
     = (Inl (UnknownOperator ''~>'') :: unit error + _)
   \<and> parsePossibilityOperator \<lparr>Data = ''foo (>'', Index = 5\<rparr> \<lparr>Number = [], Operator = []\<rparr>
     = (Inl EOFInOperator :: unit error + _)"
  using
    parsePossibilityOperator_cases [where 'e = unit and 'a = unit and 's = unit,
      of "\<lparr>Data = ''foo ( <= 1.0)'', Index = 5\<rparr>" "\<lparr>Number = [], Operator = []\<rparr>"]
    parsePossibilityOperator_cases [where 'e = unit and 'a = unit and 's = unit,
      of "\<lparr>Data = ''foo (~> 1.0)'', Index = 5\<rparr>" "\<lparr>Number = [], Operator = []\<rparr>"]
    parsePossibilityOperator_cases [where 'e = unit and 'a = unit and 's = unit,
      of "\<lparr>Data = ''foo (>'', Index = 5\<rparr>" "\<lparr>Number = [], Operator = []\<rparr>"]
  by (simp add: eatWhitespace.simps Peek_def Next_def Let_def string_of_byte_def)

section \<open>Commas (C6)\<close>



section \<open>Negation of an architecture list (C7)\<close>

text \<open>
  C7: negation belongs to the whole list. A \<open>!\<close> right after the opening \<open>[\<close> is consumed
  and sets the flag \<open>Not'\<close> before the first token is read; when the block has been parsed the
  flag is set exactly if that byte was a \<open>!\<close> (or the flag was set before), so no token
  changes it. Any other \<open>!\<close> of the block is the negation-placement error, at whichever token
  it stands:

  \<^item> \<open>parsePossibilityArch\<close>, entered on a run \<open>ws\<close> of whitespace (empty, or beginning with the
    space that ended the token before), refuses a \<open>!\<close> met after the bytes \<open>tok\<close> (none, or
    bytes other than \<open>]\<close>, a space and NUL);
  \<^item> \<open>parsePossibilityArchs\<close>, at any cursor and for any possibility, refuses a block made of
    \<open>[\<close>, an optional \<open>!\<close> of the list (\<open>neg\<close>), any number of tokens that the validator
    accepts, each after a run of whitespace and followed by a space (\<open>toks\<close>, the pairs of
    the run and the token), then whitespace \<open>ws\<close>, bytes \<open>tok\<close> and a \<open>!\<close>, whatever
    follows; this \<open>!\<close> is not the list's own, since one of \<open>neg\<close>, \<open>toks\<close>, \<open>ws\<close>, \<open>tok\<close>
    is not empty;
  \<^item> \<open>Parse\<close> returns that error on a name, a space, whitespace \<open>sp\<close> and such a block.
\<close>

theorem negation_is_list_level:
  fixes pa :: "string \<Rightarrow> 'e + 'a" and p :: "('a, 's) Possibility"
  shows
    "(Peek (snd (Next (eatWhitespace i))) = CHR ''!'' \<longrightarrow>
        parsePossibilityArchs pa i p =
        parsePossibilityArchs_loop pa (snd (Next (snd (Next (eatWhitespace i)))))
          (p\<lparr>Arches := (Arches p)\<lparr>Not' := True\<rparr>\<rparr>))
     \<and> (parsePossibilityArchs pa i p = Inr (i', p') \<longrightarrow>
        Not' (Arches p') = (Peek (snd (Next (eatWhitespace i))) = CHR ''!'' \<or> Not' (Arches p)))
     \<and> ((\<forall>c\<in>set ws. whitespace c) \<and>
         (\<forall>x\<in>set tok. x \<noteq> CHR 0x00 \<and> x \<noteq> CHR '']'' \<and> x \<noteq> CHR '' '') \<longrightarrow>
        parsePossibilityArch pa \<lparr>Data = pre @ ws @ tok @ CHR ''!'' # rest, Index = length pre\<rparr> p =
          Inl NegateWholeBlocks)
     \<and> ((neg = [] \<or> neg = [CHR ''!''])
          \<and> (\<forall>wt\<in>set toks. (\<forall>c\<in>set (fst wt). whitespace c) \<and>
                snd wt \<noteq> [] \<and> \<not> whitespace (hd (snd wt)) \<and>
                (\<forall>x\<in>set (snd wt). x \<noteq> CHR 0x00 \<and> x \<noteq> CHR ''!'' \<and> x \<noteq> CHR '']'' \<and> x \<noteq> CHR '' '') \<and>
                (\<exists>a. pa (concat (map string_of_byte (snd wt))) = Inr a))
          \<and> (\<forall>c\<in>set ws. whitespace c)
          \<and> (\<forall>x\<in>set tok. x \<noteq> CHR 0x00 \<and> x \<noteq> CHR '']'' \<and> x \<noteq> CHR '' '')
          \<and> (neg \<noteq> [] \<or> toks \<noteq> [] \<or> ws \<noteq> [] \<or> tok \<noteq> []) \<longrightarrow>
        parsePossibilityArchs pa
          \<lparr>Data = pre @ CHR ''['' # neg @
                  concat (map (\<lambda>wt. fst wt @ snd wt @ [CHR '' '']) toks) @ ws @ tok @ CHR ''!'' # rest,
           Index = length pre\<rparr> p = Inl NegateWholeBlocks
        \<and> ((\<forall>x\<in>set nm. x \<noteq> CHR '','' \<and> x \<noteq> CHR ''|'' \<and> x \<noteq> CHR 0x00 \<and> \<not> whitespace x) \<and> nm \<noteq> []
            \<and> (\<forall>c\<in>set sp. whitespace c) \<longrightarrow>
           Parse pa (nm @ CHR '' '' # sp @ CHR ''['' # neg @
                  concat (map (\<lambda>wt. fst wt @ snd wt @ [CHR '' '']) toks) @ ws @ tok @ CHR ''!'' # rest) =
             (Inl NegateWholeBlocks :: 'e error + ('a, 's) Depedency)))"
proof (intro conjI impI)
  assume "Peek (snd (Next (eatWhitespace i))) = CHR ''!''"
  then show "parsePossibilityArchs pa i p =
      parsePossibilityArchs_loop pa (snd (Next (snd (Next (eatWhitespace i)))))
        (p\<lparr>Arches := (Arches p)\<lparr>Not' := True\<rparr>\<rparr>)"
    by (simp add: parsePossibilityArchs_def Let_def)
next
  assume "parsePossibilityArchs pa i p = Inr (i', p')"
  then show "Not' (Arches p') = (Peek (snd (Next (eatWhitespace i))) = CHR ''!'' \<or> Not' (Arches p))"
    by (rule parsePossibilityArchs_Not)
next
  assume h: "(\<forall>c\<in>set ws. whitespace c) \<and>
      (\<forall>x\<in>set tok. x \<noteq> CHR 0x00 \<and> x \<noteq> CHR '']'' \<and> x \<noteq> CHR '' '')"
  from parsePossibilityArch_ws_bang [OF h [THEN conjunct1] h [THEN conjunct2], of pa pre rest p]
  show "parsePossibilityArch pa \<lparr>Data = pre @ ws @ tok @ CHR ''!'' # rest, Index = length pre\<rparr> p =
      Inl NegateWholeBlocks"
    by (simp add: cursor_def)
next
  let ?body = "neg @ concat (map (\<lambda>wt. fst wt @ snd wt @ [CHR '' '']) toks) @
    ws @ tok @ CHR ''!'' # rest"
  assume h: "(neg = [] \<or> neg = [CHR ''!''])
          \<and> (\<forall>wt\<in>set toks. (\<forall>c\<in>set (fst wt). whitespace c) \<and>
                snd wt \<noteq> [] \<and> \<not> whitespace (hd (snd wt)) \<and>
                (\<forall>x\<in>set (snd wt). x \<noteq> CHR 0x00 \<and> x \<noteq> CHR ''!'' \<and> x \<noteq> CHR '']'' \<and> x \<noteq> CHR '' '') \<and>
                (\<exists>a. pa (concat (map string_of_byte (snd wt))) = Inr a))
          \<and> (\<forall>c\<in>set ws. whitespace c)
          \<and> (\<forall>x\<in>set tok. x \<noteq> CHR 0x00 \<and> x \<noteq> CHR '']'' \<and> x \<noteq> CHR '' '')
          \<and> (neg \<noteq> [] \<or> toks \<noteq> [] \<or> ws \<noteq> [] \<or> tok \<noteq> [])"
  from h have neg: "neg = [] \<or> neg = [CHR ''!'']"
    by (rule conjunct1)
  from h have toks: "\<forall>wt\<in>set toks. (\<forall>c\<in>set (fst wt). whitespace c) \<and>
        snd wt \<noteq> [] \<and> \<not> whitespace (hd (snd wt)) \<and>
        (\<forall>x\<in>set (snd wt). x \<noteq> CHR 0x00 \<and> x \<noteq> CHR ''!'' \<and> x \<noteq> CHR '']'' \<and> x \<noteq> CHR '' '') \<and>
        (\<exists>a. pa (concat (map string_of_byte (snd wt))) = Inr a)"
    by (rule conjunct2 [THEN conjunct1])
  from h have ws: "\<forall>c\<in>set ws. whitespace c"
    by (rule conjunct2 [THEN conjunct2, THEN conjunct1])
  from h have tok: "\<forall>x\<in>set tok. x \<noteq> CHR 0x00 \<and> x \<noteq> CHR '']'' \<and> x \<noteq> CHR '' ''"
    by (rule conjunct2 [THEN conjunct2, THEN conjunct2, THEN conjunct1])
  from h have some: "neg \<noteq> [] \<or> toks \<noteq> [] \<or> ws \<noteq> [] \<or> tok \<noteq> []"
    by (rule conjunct2 [THEN conjunct2, THEN conjunct2, THEN conjunct2])
  have block: "parsePossibilityArchs pa (cursor pre' (CHR ''['' # ?body)) q = Inl NegateWholeBlocks"
    for pre' and q :: "('a, 's) Possibility"
    by (rule parsePossibilityArchs_later_bang [OF toks ws tok neg some])
  from block [of pre p]
  show "parsePossibilityArchs pa \<lparr>Data = pre @ CHR ''['' # ?body, Index = length pre\<rparr> p =
      Inl NegateWholeBlocks"
    by (simp add: cursor_def)
  assume n: "(\<forall>x\<in>set nm. x \<noteq> CHR '','' \<and> x \<noteq> CHR ''|'' \<and> x \<noteq> CHR 0x00 \<and> \<not> whitespace x) \<and> nm \<noteq> []
      \<and> (\<forall>c\<in>set sp. whitespace c)"
  from n have nm: "\<forall>x\<in>set nm. x \<noteq> CHR '','' \<and> x \<noteq> CHR ''|'' \<and> x \<noteq> CHR 0x00 \<and> \<not> whitespace x"
    by (rule conjunct1)
  from n have nm_ne: "nm \<noteq> []"
    by (rule conjunct2 [THEN conjunct1])
  from n have sp: "\<forall>c\<in>set sp. whitespace c"
    by (rule conjunct2 [THEN conjunct2])
  show "Parse pa (nm @ CHR '' '' # sp @ CHR ''['' # ?body) =
      (Inl NegateWholeBlocks :: 'e error + ('a, 's) Depedency)"
    by (rule Parse_arch_block_error [OF nm nm_ne sp block])
qed

theorem negation_is_list_level_witness:
  "parsePossibilityArchs (\<lambda>a. Inr a) \<lparr>Data = ''[!amd64 i386]'', Index = 0\<rparr>
       \<lparr>Name = ''foo'', Version = None, Arches = \<lparr>Not' = False, Arches' = []\<rparr>,
          Stages = \<lparr>Stages' = []\<rparr>\<rparr>
     = (Inr (\<lparr>Data = ''[!amd64 i386]'', Index = 13\<rparr>,
          \<lparr>Name = ''foo'', Version = None,
             Arches = \<lparr>Not' = True, Arches' = [''amd64'', ''i386'']\<rparr>,
             Stages = \<lparr>Stages' = []\<rparr>\<rparr>)
        :: unit error + Input \<times> (string, unit) Possibility)
   \<and> parsePossibilityArch (\<lambda>a. Inr a) \<lparr>Data = ''[amd64 !i386]'', Index = 6\<rparr>
       \<lparr>Name = ''foo'', Version = None, Arches = \<lparr>Not' = False, Arches' = [''amd64'']\<rparr>,
          Stages = \<lparr>Stages' = []\<rparr>\<rparr>
     = (Inl NegateWholeBlocks :: unit error + Input \<times> (string, unit) Possibility)
   \<and> parsePossibilityArchs (\<lambda>a. Inr a) \<lparr>Data = ''foo [amd64  i386 !arm]'', Index = 4\<rparr>
       \<lparr>Name = ''foo'', Version = None, Arches = \<lparr>Not' = False, Arches' = []\<rparr>,
          Stages = \<lparr>Stages' = []\<rparr>\<rparr>
     = (Inl NegateWholeBlocks :: unit error + Input \<times> (string, unit) Possibility)
   \<and> Parse (\<lambda>a. Inr a) ''foo [amd64 !i386]''
     = (Inl NegateWholeBlocks :: unit error + (string, unit) Depedency)
   \<and> Parse (\<lambda>a. Inr a) ''foo [amd64 i3!86]''
     = (Inl NegateWholeBlocks :: unit error + (string, unit) Depedency)
   \<and> Parse (\<lambda>a. Inr a) ''foo [amd64!]''
     = (Inl NegateWholeBlocks :: unit error + (string, unit) Depedency)
   \<and> Parse (\<lambda>a. Inr a) ''foo [!!amd64]''
     = (Inl NegateWholeBlocks :: unit error + (string, unit) Depedency)"
proof (intro conjI)
  let ?p = "\<lparr>Name = ''foo'', Version = None, Arches = \<lparr>Not' = False, Arches' = []\<rparr>,
    Stages = \<lparr>Stages' = []\<rparr>\<rparr> :: (string, unit) Possibility"
  show "parsePossibilityArchs (\<lambda>a. Inr a) \<lparr>Data = ''[!amd64 i386]'', Index = 0\<rparr> ?p
     = (Inr (\<lparr>Data = ''[!amd64 i386]'', Index = 13\<rparr>,
          \<lparr>Name = ''foo'', Version = None,
             Arches = \<lparr>Not' = True, Arches' = [''amd64'', ''i386'']\<rparr>,
             Stages = \<lparr>Stages' = []\<rparr>\<rparr>)
        :: unit error + Input \<times> (string, unit) Possibility)"
    using negation_is_list_level [where 'e = unit and 'a = string and 's = unit
        and pa = "\<lambda>a. Inr a" and i = "\<lparr>Data = ''[!amd64 i386]'', Index = 0\<rparr>" and p = ?p,
        THEN conjunct1]
    by (simp add: parser_eval)
  show "parsePossibilityArch (\<lambda>a. Inr a) \<lparr>Data = ''[amd64 !i386]'', Index = 6\<rparr>
       \<lparr>Name = ''foo'', Version = None, Arches = \<lparr>Not' = False, Arches' = [''amd64'']\<rparr>,
          Stages = \<lparr>Stages' = []\<rparr>\<rparr>
     = (Inl NegateWholeBlocks :: unit error + Input \<times> (string, unit) Possibility)"
    using negation_is_list_level [where 'e = unit and 'a = string and 's = unit
        and pa = "\<lambda>a. Inr a" and pre = "''[amd64''" and ws = "'' ''" and tok = "[]"
        and rest = "''i386]''"
        and p = "\<lparr>Name = ''foo'', Version = None,
          Arches = \<lparr>Not' = False, Arches' = [''amd64'']\<rparr>, Stages = \<lparr>Stages' = []\<rparr>\<rparr>",
        THEN conjunct2, THEN conjunct2, THEN conjunct1]
    by (simp add: eval_nat_numeral whitespace_def)
  show "parsePossibilityArchs (\<lambda>a. Inr a) \<lparr>Data = ''foo [amd64  i386 !arm]'', Index = 4\<rparr> ?p
     = (Inl NegateWholeBlocks :: unit error + Input \<times> (string, unit) Possibility)"
    using negation_is_list_level [where 'e = unit and 'a = string and 's = unit
        and pa = "\<lambda>a. Inr a" and pre = "''foo ''" and neg = "[]"
        and toks = "[([], ''amd64''), ('' '', ''i386'')]" and ws = "[]" and tok = "[]"
        and rest = "''arm]''" and p = ?p,
        THEN conjunct2, THEN conjunct2, THEN conjunct2, THEN mp, THEN conjunct1]
    by (simp add: eval_nat_numeral whitespace_def)
  show "Parse (\<lambda>a. Inr a) ''foo [amd64 !i386]''
     = (Inl NegateWholeBlocks :: unit error + (string, unit) Depedency)"
    using negation_is_list_level [where 'e = unit and 'a = string and 's = unit
        and pa = "\<lambda>a. Inr a" and nm = "''foo''" and sp = "[]" and neg = "[]"
        and toks = "[([], ''amd64'')]" and ws = "[]" and tok = "[]" and rest = "''i386]''",
        THEN conjunct2, THEN conjunct2, THEN conjunct2]
    by (simp add: whitespace_def)
  show "Parse (\<lambda>a. Inr a) ''foo [amd64 i3!86]''
     = (Inl NegateWholeBlocks :: unit error + (string, unit) Depedency)"
    using negation_is_list_level [where 'e = unit and 'a = string and 's = unit
        and pa = "\<lambda>a. Inr a" and nm = "''foo''" and sp = "[]" and neg = "[]"
        and toks = "[([], ''amd64'')]" and ws = "[]" and tok = "''i3''" and rest = "''86]''",
        THEN conjunct2, THEN conjunct2, THEN conjunct2]
    by (simp add: whitespace_def)
  show "Parse (\<lambda>a. Inr a) ''foo [amd64!]''
     = (Inl NegateWholeBlocks :: unit error + (string, unit) Depedency)"
    using negation_is_list_level [where 'e = unit and 'a = string and 's = unit
        and pa = "\<lambda>a. Inr a" and nm = "''foo''" and sp = "[]" and neg = "[]"
        and toks = "[]" and ws = "[]" and tok = "''amd64''" and rest = "'']''",
        THEN conjunct2, THEN conjunct2, THEN conjunct2]
    by (simp add: whitespace_def)
  show "Parse (\<lambda>a. Inr a) ''foo [!!amd64]''
     = (Inl NegateWholeBlocks :: unit error + (string, unit) Depedency)"
    using negation_is_list_level [where 'e = unit and 'a = string and 's = unit
        and pa = "\<lambda>a. Inr a" and nm = "''foo''" and sp = "[]" and neg = "''!''"
        and toks = "[]" and ws = "[]" and tok = "[]" and rest = "''amd64]''",
        THEN conjunct2, THEN conjunct2, THEN conjunct2]
    by (simp add: whitespace_def)
qed

section \<open>Termination (C9)\<close>

lemma fewer_bytes_left:
  "Data i' = Data i \<Longrightarrow> Index i < Index i' \<Longrightarrow> Index i < length (Data i) \<Longrightarrow>
   length (Data i') - Index i' < length (Data i) - Index i"
  by simp

text \<open>
  C9: \<open>Parse\<close> terminates on every input. Each loop of the parser is a recursive function
  here, and \<open>f_dom x\<close> says that the recursion of \<open>f\<close> from the arguments \<open>x\<close> is well-founded:
  the loop started in that state comes to an end. This holds for every loop in every state
  (the functions without loop, \<open>parsePossibilityOperator\<close> among them, are compositions of
  these). The reason is the one the claim gives: the number of bytes between the cursor and
  the end of the data goes down on every path back to the head of a loop. A byte is consumed
  by \<open>Next\<close> only where \<open>Peek\<close> is not 0 (whitespace, separators, and the bytes of names,
  numbers and architecture tokens), and a nested parser that returns without error to a loop
  that continues has consumed at least one byte.
\<close>

theorem parser_terminates:
  fixes pa :: "string \<Rightarrow> 'e + 'a" and p :: "('a, 's) Possibility"
  shows
    "eatWhitespace_dom i
     \<and> parsePossibilityArch_loop_dom (pa, i, arch, p)
     \<and> parsePossibilityArchs_loop_dom (pa, i, p)
     \<and> parsePossibilityNumber_loop_dom (i, v)
     \<and> parsePossibilityControllers_dom (pa, i, p)
     \<and> parsePossibility_loop_dom (pa, i, p, rel)
     \<and> parseRelation_loop_dom (pa, i, rel, dep)
     \<and> parseDependency_loop_dom (pa, i, dep)
     \<and> (Peek i \<noteq> CHR 0x00 \<longrightarrow>
          length (Data (snd (Next i))) - Index (snd (Next i)) < length (Data i) - Index i)
     \<and> (Peek i \<noteq> CHR 0x00 \<longrightarrow>
          length (Data (eatWhitespace (snd (Next i)))) - Index (eatWhitespace (snd (Next i)))
            < length (Data i) - Index i)
     \<and> (Peek i \<noteq> CHR 0x00 \<and> Peek i \<noteq> CHR '','' \<and> parseRelation pa i dep = Inr (i', dep') \<longrightarrow>
          length (Data i') - Index i' < length (Data i) - Index i)
     \<and> (Peek i \<noteq> CHR 0x00 \<and> Peek i \<noteq> CHR '','' \<and> Peek i \<noteq> CHR ''|'' \<and>
          parsePossibility pa i rel = Inr (i', rel') \<longrightarrow>
          length (Data i') - Index i' < length (Data i) - Index i)
     \<and> (Peek i = CHR '' '' \<and> parsePossibilityControllers pa i p = Inr (i', p') \<longrightarrow>
          length (Data i') - Index i' < length (Data i) - Index i)
     \<and> (Peek (eatWhitespace i) = CHR ''('' \<and>
          parsePossibilityVersion (eatWhitespace i) p = (Inr (i', p') :: 'e error + _) \<longrightarrow>
          length (Data i') - Index i' < length (Data i) - Index i)
     \<and> (Peek (eatWhitespace i) = CHR ''['' \<and>
          parsePossibilityArchs pa (eatWhitespace i) p = Inr (i', p') \<longrightarrow>
          length (Data i') - Index i' < length (Data i) - Index i)
     \<and> (Peek i \<noteq> CHR 0x00 \<and> Peek i \<noteq> CHR '']'' \<and> parsePossibilityArch pa i p = Inr (i', p') \<longrightarrow>
          length (Data i') - Index i' < length (Data i) - Index i)"
proof (intro conjI impI; (elim conjE)?)
  show "eatWhitespace_dom i"
    using eatWhitespace_terminates by blast
  show "parsePossibilityArch_loop_dom (pa, i, arch, p)"
    using parsePossibilityArch_loop_terminates by blast
  show "parsePossibilityArchs_loop_dom (pa, i, p)"
    using parsePossibilityArchs_loop_terminates by blast
  show "parsePossibilityNumber_loop_dom (i, v)"
    using parsePossibilityNumber_loop_terminates by blast
  show "parsePossibilityControllers_dom (pa, i, p)"
    using parsePossibilityControllers_terminates by blast
  show "parsePossibility_loop_dom (pa, i, p, rel)"
    using parsePossibility_loop_terminates by blast
  show "parseRelation_loop_dom (pa, i, rel, dep)"
    using parseRelation_loop_terminates by blast
  show "parseDependency_loop_dom (pa, i, dep)"
    using parseDependency_loop_terminates by blast
next
  assume "Peek i \<noteq> CHR 0x00"
  then show "length (Data (snd (Next i))) - Index (snd (Next i)) < length (Data i) - Index i"
    using Peek_in_bounds [of i] by simp
next
  assume "Peek i \<noteq> CHR 0x00"
  then show "length (Data (eatWhitespace (snd (Next i)))) - Index (eatWhitespace (snd (Next i)))
      < length (Data i) - Index i"
    using Peek_in_bounds [of i] eatWhitespace_Index [of "snd (Next i)"] by simp
next
  assume "Peek i \<noteq> CHR 0x00" "Peek i \<noteq> CHR '',''" "parseRelation pa i dep = Inr (i', dep')"
  then show "length (Data i') - Index i' < length (Data i) - Index i"
    using parseRelation_progress [of pa i dep i' dep'] Peek_in_bounds [of i]
    by (intro fewer_bytes_left) simp_all
next
  assume "Peek i \<noteq> CHR 0x00" "Peek i \<noteq> CHR '',''" "Peek i \<noteq> CHR ''|''"
    "parsePossibility pa i rel = Inr (i', rel')"
  then show "length (Data i') - Index i' < length (Data i) - Index i"
    using parsePossibility_progress [of pa i rel i' rel'] Peek_in_bounds [of i]
    by (intro fewer_bytes_left) simp_all
next
  assume "Peek i = CHR '' ''" "parsePossibilityControllers pa i p = Inr (i', p')"
  then show "length (Data i') - Index i' < length (Data i) - Index i"
    using parsePossibilityControllers_mono [of pa i p i' p'] eatWhitespace_eats [of i]
      Peek_in_bounds [of i]
    by (intro fewer_bytes_left) simp_all
next
  assume "Peek (eatWhitespace i) = CHR ''(''"
    "parsePossibilityVersion (eatWhitespace i) p = (Inr (i', p') :: 'e error + _)"
  then show "length (Data i') - Index i' < length (Data i) - Index i"
    using parsePossibilityVersion_progress [of "eatWhitespace i" p i' p', where 'e = 'e]
      eatWhitespace_Index [of i] Peek_in_bounds [of "eatWhitespace i"]
    by (intro fewer_bytes_left) simp_all
next
  assume "Peek (eatWhitespace i) = CHR ''[''"
    "parsePossibilityArchs pa (eatWhitespace i) p = Inr (i', p')"
  then show "length (Data i') - Index i' < length (Data i) - Index i"
    using parsePossibilityArchs_progress [of pa "eatWhitespace i" p i' p']
      eatWhitespace_Index [of i] Peek_in_bounds [of "eatWhitespace i"]
    by (intro fewer_bytes_left) simp_all
next
  assume "Peek i \<noteq> CHR 0x00" "Peek i \<noteq> CHR '']''" "parsePossibilityArch pa i p = Inr (i', p')"
  then show "length (Data i') - Index i' < length (Data i) - Index i"
    using parsePossibilityArch_progress [of pa i p i' p'] parsePossibilityArch_mono [of pa i p i' p']
      Peek_in_bounds [of i]
    by (intro fewer_bytes_left) simp_all
qed

theorem parser_terminates_witness:
  "Peek \<lparr>Data = ''foo, bar'', Index = 0\<rparr> \<noteq> CHR 0x00
   \<and> Peek \<lparr>Data = ''foo, bar'', Index = 0\<rparr> \<noteq> CHR '',''
   \<and> parseRelation (\<lambda>a. Inr a) \<lparr>Data = ''foo, bar'', Index = 0\<rparr> \<lparr>Relations = []\<rparr> =
       (Inr (\<lparr>Data = ''foo, bar'', Index = 3\<rparr>,
          \<lparr>Relations = [\<lparr>Possibilities = [\<lparr>Name = ''foo'', Version = None,
             Arches = \<lparr>Not' = False, Arches' = []\<rparr>, Stages = \<lparr>Stages' = []\<rparr>\<rparr>]\<rparr>]\<rparr>)
        :: unit error + Input \<times> (string, unit) Depedency)
   \<and> length (Data \<lparr>Data = ''foo, bar'', Index = 3\<rparr>) - Index \<lparr>Data = ''foo, bar'', Index = 3\<rparr>
       < length (Data \<lparr>Data = ''foo, bar'', Index = 0\<rparr>) - Index \<lparr>Data = ''foo, bar'', Index = 0\<rparr>"
proof -
  let ?i = "\<lparr>Data = ''foo, bar'', Index = 0\<rparr>"
  let ?i' = "\<lparr>Data = ''foo, bar'', Index = 3\<rparr>"
  let ?d = "\<lparr>Relations = [\<lparr>Possibilities = [\<lparr>Name = ''foo'', Version = None,
    Arches = \<lparr>Not' = False, Arches' = []\<rparr>, Stages = \<lparr>Stages' = []\<rparr>\<rparr>]\<rparr>]\<rparr>
    :: (string, unit) Depedency"
  have peek: "Peek ?i \<noteq> CHR 0x00" "Peek ?i \<noteq> CHR '',''"
    by (simp_all add: Peek_def)
  have run: "parseRelation (\<lambda>a. Inr a) ?i \<lparr>Relations = []\<rparr> =
      (Inr (?i', ?d) :: unit error + Input \<times> (string, unit) Depedency)"
    by (simp add: parser_eval)
  have "Peek ?i \<noteq> CHR 0x00 \<and> Peek ?i \<noteq> CHR '','' \<and>
      parseRelation (\<lambda>a. Inr a) ?i \<lparr>Relations = []\<rparr> =
        (Inr (?i', ?d) :: unit error + Input \<times> (string, unit) Depedency) \<longrightarrow>
      length (Data ?i') - Index ?i' < length (Data ?i) - Index ?i"
    using parser_terminates [where 'e = unit and 'a = string and 's = unit
        and pa = "\<lambda>a. Inr a" and i = ?i and dep = "\<lparr>Relations = []\<rparr>" and i' = ?i' and dep' = ?d,
        THEN conjunct2, THEN conjunct2, THEN conjunct2, THEN conjunct2, THEN conjunct2,
        THEN conjunct2, THEN conjunct2, THEN conjunct2, THEN conjunct2, THEN conjunct2,
        THEN conjunct1] .
  with peek run show ?thesis
    by (intro conjI) blast+
qed

section \<open>NUL ends the input (C10)\<close>

text \<open>
  C10: for a string \<open>s\<close> without NUL byte and any string \<open>t\<close>, \<open>Parse\<close> returns on \<open>s\<close>, a NUL
  byte and \<open>t\<close> what it returns on \<open>s\<close>: the bytes from the first NUL on are ignored. (The
  equation does not need that \<open>s\<close> has no NUL byte, as \<open>Parse_NUL_tail\<close> shows.)
\<close>

theorem Parse_ignores_from_NUL:
  fixes pa :: "string \<Rightarrow> 'e + 'a"
  assumes "CHR 0x00 \<notin> set s"
  shows "Parse pa (s @ CHR 0x00 # t) = (Parse pa s :: 'e error + ('a, 's) Depedency)"
  by (rule Parse_NUL_tail)

theorem Parse_ignores_from_NUL_witness:
  "Parse (\<lambda>a. Inr a) (''foo | bar'' @ CHR 0x00 # '', baz (= 1'')
     = (Parse (\<lambda>a. Inr a) ''foo | bar'' :: unit error + (string, unit) Depedency)
   \<and> Parse (\<lambda>a. Inr a) (''foo | bar'' @ CHR 0x00 # '', baz (= 1'') =
     (Inr \<lparr>Relations = [\<lparr>Possibilities =
        [\<lparr>Name = ''foo'', Version = None, Arches = \<lparr>Not' = False, Arches' = []\<rparr>,
           Stages = \<lparr>Stages' = []\<rparr>\<rparr>,
         \<lparr>Name = ''bar'', Version = None, Arches = \<lparr>Not' = False, Arches' = []\<rparr>,
           Stages = \<lparr>Stages' = []\<rparr>\<rparr>]\<rparr>]\<rparr> :: unit error + (string, unit) Depedency)"
proof -
  have run: "Parse (\<lambda>a. Inr a) ''foo | bar'' =
     (Inr \<lparr>Relations = [\<lparr>Possibilities =
        [\<lparr>Name = ''foo'', Version = None, Arches = \<lparr>Not' = False, Arches' = []\<rparr>,
           Stages = \<lparr>Stages' = []\<rparr>\<rparr>,
         \<lparr>Name = ''bar'', Version = None, Arches = \<lparr>Not' = False, Arches' = []\<rparr>,
           Stages = \<lparr>Stages' = []\<rparr>\<rparr>]\<rparr>]\<rparr> :: unit error + (string, unit) Depedency)"
    by (simp add: parser_eval)
  have "CHR 0x00 \<notin> set ''foo | bar''"
    by simp
  from Parse_ignores_from_NUL [OF this, where 'e = unit and 'a = string and 's = unit
      and pa = "\<lambda>a. Inr a" and t = "'', baz (= 1''"] run
  show ?thesis by simp
qed

end
